theory Spec2Isabelle
  imports Main "HOL-Library.Word" "HOL-Library.List_Lexorder"
begin

unbundle bit_operations_syntax

section \<open>Data model\<close>

text \<open>
  A node is a view over a byte buffer (\<^verbatim>\<open>type BNode struct { Data []byte }\<close>). A Go slice
  refers to a backing array, and the builders receive two nodes that may or may not share
  one, so the buffers live in an explicit memory: \<open>Data\<close> is the address of the node's
  buffer and the memory maps an address to the bytes stored there. A buffer's length and
  capacity coincide, as for a page obtained from \<^verbatim>\<open>make([]byte, n)\<close>.

  The Go integers are machine words: \<^verbatim>\<open>uint16\<close> positions and counts wrap around
  at \<open>2 ^ 16\<close>.
\<close>

type_synonym byte = "8 word"
type_synonym uint16 = "16 word"
type_synonym uint64 = "64 word"
type_synonym mem = "nat \<Rightarrow> byte list"

record BNode =
  Data :: nat

text \<open>
  A run-time panic ends the call. \<open>AssertFailed\<close> is a failed \<^verbatim>\<open>utils.Assert\<close>,
  \<open>OutOfRange\<close> an index or a slice bound outside the buffer.
\<close>

datatype error = AssertFailed | OutOfRange

definition thn :: "error + 'a \<Rightarrow> ('a \<Rightarrow> error + 'b) \<Rightarrow> error + 'b" where
  "thn r f = (case r of Inl e \<Rightarrow> Inl e | Inr x \<Rightarrow> f x)"

subsection \<open>Constants (consts/consts.go)\<close>

definition BNODE_BNODE :: uint16 where "BNODE_BNODE = 1"
definition BNODE_BLEAF :: uint16 where "BNODE_BLEAF = 2"
definition HEADER :: uint16 where "HEADER = 4"
definition BTREE_PAGE_SIZE :: nat where "BTREE_PAGE_SIZE = 4096"
definition BTREE_MAX_KEY_SIZE :: nat where "BTREE_MAX_KEY_SIZE = 1000"
definition BTREE_MAX_VAL_SIZE :: nat where "BTREE_MAX_VAL_SIZE = 3000"

subsection \<open>Library functions the node code calls\<close>

text \<open>
  Modelled from the spec: \<^verbatim>\<open>utils.Assert\<close> is imported by the node code but its file is
  not among the sources. The specification calls its failure an assertion-style fatal
  out-of-bounds condition: the call ends when the condition is false.
\<close>

definition Assert :: "bool \<Rightarrow> error + unit" where
  "Assert c = (if c then Inr () else Inl AssertFailed)"

text \<open>
  \<^verbatim>\<open>binary.LittleEndian\<close> of the Go standard library, applied to the slice \<^verbatim>\<open>b[pos:]\<close>:
  the slice expression panics when \<open>pos\<close> is beyond the buffer, and the functions panic
  when fewer than 2 (or 8) bytes remain.
\<close>

definition Uint16 :: "byte list \<Rightarrow> nat \<Rightarrow> error + uint16" where
  "Uint16 b pos =
     (if pos + 2 \<le> length b
      then Inr (ucast (b ! pos) OR push_bit 8 (ucast (b ! (pos + 1))))
      else Inl OutOfRange)"

definition PutUint16 :: "byte list \<Rightarrow> nat \<Rightarrow> uint16 \<Rightarrow> error + byte list" where
  "PutUint16 b pos v =
     (if pos + 2 \<le> length b
      then Inr (b[pos := ucast v, pos + 1 := ucast (drop_bit 8 v)])
      else Inl OutOfRange)"

definition Uint64 :: "byte list \<Rightarrow> nat \<Rightarrow> error + uint64" where
  "Uint64 b pos =
     (if pos + 8 \<le> length b
      then Inr (ucast (b ! pos) OR push_bit 8 (ucast (b ! (pos + 1)))
             OR push_bit 16 (ucast (b ! (pos + 2))) OR push_bit 24 (ucast (b ! (pos + 3)))
             OR push_bit 32 (ucast (b ! (pos + 4))) OR push_bit 40 (ucast (b ! (pos + 5)))
             OR push_bit 48 (ucast (b ! (pos + 6))) OR push_bit 56 (ucast (b ! (pos + 7))))
      else Inl OutOfRange)"

definition PutUint64 :: "byte list \<Rightarrow> nat \<Rightarrow> uint64 \<Rightarrow> error + byte list" where
  "PutUint64 b pos v =
     (if pos + 8 \<le> length b
      then Inr (b[pos := ucast v, pos + 1 := ucast (drop_bit 8 v),
                  pos + 2 := ucast (drop_bit 16 v), pos + 3 := ucast (drop_bit 24 v),
                  pos + 4 := ucast (drop_bit 32 v), pos + 5 := ucast (drop_bit 40 v),
                  pos + 6 := ucast (drop_bit 48 v), pos + 7 := ucast (drop_bit 56 v)])
      else Inl OutOfRange)"

text \<open>
  The slice expressions \<^verbatim>\<open>b[start:][:len]\<close> and \<^verbatim>\<open>b[begin:end]\<close>, and the built-in
  \<^verbatim>\<open>copy(b[pos:], src)\<close>, which copies as many bytes as both slices hold.
\<close>

definition slice_len :: "byte list \<Rightarrow> nat \<Rightarrow> nat \<Rightarrow> error + byte list" where
  "slice_len b start len =
     (if start \<le> length b \<and> len \<le> length b - start
      then Inr (take len (drop start b)) else Inl OutOfRange)"

definition slice_range :: "byte list \<Rightarrow> nat \<Rightarrow> nat \<Rightarrow> error + byte list" where
  "slice_range b begin end =
     (if begin \<le> end \<and> end \<le> length b
      then Inr (take (end - begin) (drop begin b)) else Inl OutOfRange)"

definition copy_at :: "byte list \<Rightarrow> nat \<Rightarrow> byte list \<Rightarrow> error + byte list" where
  "copy_at b pos src =
     (if pos \<le> length b
      then (let k = min (length b - pos) (length src)
            in Inr (take pos b @ take k src @ drop (pos + k) b))
      else Inl OutOfRange)"

text \<open>
  \<^verbatim>\<open>bytes.Compare\<close>: lexicographic on unsigned bytes, a proper prefix is smaller;
  the result is \<open>-1\<close>, \<open>0\<close> or \<open>1\<close>.
\<close>

fun Compare :: "byte list \<Rightarrow> byte list \<Rightarrow> int" where
  "Compare [] [] = 0"
| "Compare [] (y # ys) = - 1"
| "Compare (x # xs) [] = 1"
| "Compare (x # xs) (y # ys) =
     (if x < y then - 1 else if y < x then 1 else Compare xs ys)"

section \<open>Node codec (internal/BNode/BNode.go)\<close>

definition BType :: "mem \<Rightarrow> BNode \<Rightarrow> error + uint16" where
  "BType m n = Uint16 (m (Data n)) 0"

definition NKeys :: "mem \<Rightarrow> BNode \<Rightarrow> error + uint16" where
  "NKeys m n = Uint16 (m (Data n)) 2"

text \<open>Both writes of \<^verbatim>\<open>SetHeader\<close> go to the start of the buffer, as in the source.\<close>

definition SetHeader :: "mem \<Rightarrow> BNode \<Rightarrow> uint16 \<Rightarrow> uint16 \<Rightarrow> error + mem" where
  "SetHeader m n btype nkeys =
     thn (PutUint16 (m (Data n)) 0 btype) (\<lambda>b1.
     thn (PutUint16 b1 0 nkeys) (\<lambda>b2.
     Inr (m(Data n := b2))))"

definition GetPtr :: "mem \<Rightarrow> BNode \<Rightarrow> uint16 \<Rightarrow> error + uint64" where
  "GetPtr m n idx =
     thn (NKeys m n) (\<lambda>nk.
     thn (Assert (idx < nk)) (\<lambda>_.
     Uint64 (m (Data n)) (unat (HEADER + 8 * idx))))"

definition SetPtr :: "mem \<Rightarrow> BNode \<Rightarrow> uint16 \<Rightarrow> uint64 \<Rightarrow> error + mem" where
  "SetPtr m n idx val =
     thn (NKeys m n) (\<lambda>nk.
     thn (Assert (idx < nk)) (\<lambda>_.
     thn (PutUint64 (m (Data n)) (unat (HEADER + 8 * idx)) val) (\<lambda>b.
     Inr (m(Data n := b)))))"

text \<open>
  \<^verbatim>\<open>OffsetPos\<close>: the conjunction of the assertion is short-circuit, so the key count is
  read only when \<open>1 \<le> idx\<close>; it is read again for the result.
\<close>

definition OffsetPos :: "mem \<Rightarrow> BNode \<Rightarrow> uint16 \<Rightarrow> error + uint16" where
  "OffsetPos m n idx =
     thn (if 1 \<le> idx then thn (NKeys m n) (\<lambda>nk. Inr (idx \<le> nk)) else Inr False) (\<lambda>c.
     thn (Assert c) (\<lambda>_.
     thn (NKeys m n) (\<lambda>nk.
     Inr (HEADER + 8 * nk + 2 * (idx - 1)))))"

definition GetOffset :: "mem \<Rightarrow> BNode \<Rightarrow> uint16 \<Rightarrow> error + uint16" where
  "GetOffset m n idx =
     (if idx = 0 then Inr 0
      else thn (OffsetPos m n idx) (\<lambda>p. Uint16 (m (Data n)) (unat p)))"

definition SetOffset :: "mem \<Rightarrow> BNode \<Rightarrow> uint16 \<Rightarrow> uint16 \<Rightarrow> error + mem" where
  "SetOffset m n idx offset =
     thn (OffsetPos m n idx) (\<lambda>p.
     thn (PutUint16 (m (Data n)) (unat p) offset) (\<lambda>b.
     Inr (m(Data n := b))))"

definition KVPos :: "mem \<Rightarrow> BNode \<Rightarrow> uint16 \<Rightarrow> error + uint16" where
  "KVPos m n idx =
     thn (NKeys m n) (\<lambda>nk.
     thn (Assert (idx \<le> nk)) (\<lambda>_.
     thn (GetOffset m n idx) (\<lambda>off.
     Inr (HEADER + 8 * nk + 2 * nk + off))))"

definition GetKey :: "mem \<Rightarrow> BNode \<Rightarrow> uint16 \<Rightarrow> error + byte list" where
  "GetKey m n idx =
     thn (NKeys m n) (\<lambda>nk.
     thn (Assert (idx \<le> nk)) (\<lambda>_.
     thn (KVPos m n idx) (\<lambda>pos.
     thn (Uint16 (m (Data n)) (unat pos)) (\<lambda>klen.
     slice_len (m (Data n)) (unat (pos + 4)) (unat klen)))))"

definition GetVal :: "mem \<Rightarrow> BNode \<Rightarrow> uint16 \<Rightarrow> error + byte list" where
  "GetVal m n idx =
     thn (NKeys m n) (\<lambda>nk.
     thn (Assert (idx \<le> nk)) (\<lambda>_.
     thn (KVPos m n idx) (\<lambda>pos.
     thn (Uint16 (m (Data n)) (unat (pos + 0))) (\<lambda>klen.
     thn (Uint16 (m (Data n)) (unat (pos + 2))) (\<lambda>vlen.
     slice_len (m (Data n)) (unat (pos + 4 + klen)) (unat vlen))))))"

definition Nbyte :: "mem \<Rightarrow> BNode \<Rightarrow> error + uint16" where
  "Nbyte m n = thn (NKeys m n) (\<lambda>nk. KVPos m n nk)"

section \<open>Navigator\<close>

text \<open>
  The loop of \<^verbatim>\<open>NodeLookUpLE\<close>, from the state \<open>(found, i)\<close>. The accessor \<open>gk\<close>
  stands for \<^verbatim>\<open>n.GetKey\<close>, the only way the loop looks at the node.
\<close>

lemma unat_inc: "i < n \<Longrightarrow> unat (i + 1) = unat i + 1" for i n :: "'a::len word"
proof -
  assume "i < n"
  then have "unat i < unat n" by (simp add: word_less_nat_alt)
  moreover have "unat n < 2 ^ LENGTH('a)" by (rule unsigned_less)
  moreover have "unat (1 :: 'a word) = 1" by (rule unat_1)
  ultimately have "unat i + unat (1 :: 'a word) < 2 ^ LENGTH('a)" by linarith
  then have "unat (i + 1) = unat i + unat (1 :: 'a word)"
    by (rule unat_add_lem [THEN iffD1])
  then show ?thesis by simp
qed

function NodeLookUpLE_loop ::
  "(uint16 \<Rightarrow> error + byte list) \<Rightarrow> byte list \<Rightarrow> uint16 \<Rightarrow> uint16 \<Rightarrow> uint16 \<Rightarrow> error + uint16"
where
  "NodeLookUpLE_loop gk key nkeys found i =
     (if i < nkeys then
        (case gk i of
           Inl e \<Rightarrow> Inl e
         | Inr k \<Rightarrow>
             (let cmp = Compare k key;
                  found' = (if cmp \<le> 0 then i else found)
              in if cmp \<ge> 0 then Inr found'
                 else NodeLookUpLE_loop gk key nkeys found' (i + 1)))
      else Inr found)"
  by pat_completeness auto
termination
  by (relation "measure (\<lambda>(gk, key, nkeys, found, i). unat nkeys - unat i)")
     (auto simp: unat_inc word_less_nat_alt)

declare NodeLookUpLE_loop.simps [simp del]

definition NodeLookUpLE :: "mem \<Rightarrow> BNode \<Rightarrow> byte list \<Rightarrow> error + uint16" where
  "NodeLookUpLE m n key =
     thn (NKeys m n) (\<lambda>nkeys. NodeLookUpLE_loop (GetKey m n) key nkeys 0 1)"

section \<open>Node builder\<close>

text \<open>
  The builders take the memory and return the memory after their writes. The byte strings
  \<open>key\<close> and \<open>val\<close> are passed as values.
\<close>

lemma SetOffset_idx_nonzero: "SetOffset m n idx v = Inr m' \<Longrightarrow> idx \<noteq> 0"
  by (auto simp: SetOffset_def OffsetPos_def thn_def Assert_def split: sum.splits if_splits)

lemma unat_neg_inc: "d \<noteq> 0 \<Longrightarrow> unat (- (d + 1)) < unat (- d)" for d :: "'a::len word"
proof -
  assume "d \<noteq> 0"
  then have "- d \<noteq> 0" by simp
  then have "unat (- d - 1) = unat (- d) - 1" and "0 < unat (- d)"
    by (simp_all add: unat_minus_one unat_gt_0)
  then show ?thesis by simp
qed

text \<open>The pointer loop of \<^verbatim>\<open>NodeAppendRange\<close>, from the loop variable \<open>i\<close>.\<close>

function NodeAppendRange_ptrs ::
  "mem \<Rightarrow> BNode \<Rightarrow> BNode \<Rightarrow> uint16 \<Rightarrow> uint16 \<Rightarrow> uint16 \<Rightarrow> uint16 \<Rightarrow> error + mem"
where
  "NodeAppendRange_ptrs m new old dstNew srcOld n i =
     (if i < n then
        (case GetPtr m old (srcOld + i) of
           Inl e \<Rightarrow> Inl e
         | Inr p \<Rightarrow>
             (case SetPtr m new (dstNew + i) p of
                Inl e \<Rightarrow> Inl e
              | Inr m' \<Rightarrow> NodeAppendRange_ptrs m' new old dstNew srcOld n (i + 1)))
      else Inr m)"
  by pat_completeness auto
termination
  by (relation "measure (\<lambda>(m, new, old, dstNew, srcOld, n, i). unat n - unat i)")
     (auto simp: unat_inc word_less_nat_alt)

text \<open>
  The offset loop, \<^verbatim>\<open>for i := uint16(1); i <= n; i++\<close>. With \<open>n = 65535\<close> the
  condition never fails and \<open>i\<close> wraps around; the loop still ends, because
  \<^verbatim>\<open>SetOffset\<close> asserts \<open>1 \<le> dstNew + i\<close>.
\<close>

function NodeAppendRange_offsets ::
  "mem \<Rightarrow> BNode \<Rightarrow> BNode \<Rightarrow> uint16 \<Rightarrow> uint16 \<Rightarrow> uint16 \<Rightarrow> uint16 \<Rightarrow> uint16 \<Rightarrow> uint16
     \<Rightarrow> error + mem"
where
  "NodeAppendRange_offsets m new old dstNew srcOld n dstBegin srcBegin i =
     (if i \<le> n then
        (case GetOffset m old (srcOld + i) of
           Inl e \<Rightarrow> Inl e
         | Inr off \<Rightarrow>
             (case SetOffset m new (dstNew + i) (dstBegin + off - srcBegin) of
                Inl e \<Rightarrow> Inl e
              | Inr m' \<Rightarrow>
                  NodeAppendRange_offsets m' new old dstNew srcOld n dstBegin srcBegin (i + 1)))
      else Inr m)"
  by pat_completeness auto
termination
proof (relation "measure (\<lambda>(m, new, old, dstNew, srcOld, n, dstBegin, srcBegin, i).
                    unat (- (dstNew + i)))", goal_cases)
  case 1
  show ?case by simp
next
  case (2 m new old dstNew srcOld n dstBegin srcBegin i off m')
  from 2(3) have "dstNew + i \<noteq> 0" by (rule SetOffset_idx_nonzero)
  then have "unat (- (dstNew + i + 1)) < unat (- (dstNew + i))" by (rule unat_neg_inc)
  moreover have "dstNew + (i + 1) = dstNew + i + 1" by simp
  ultimately have "unat (- (dstNew + (i + 1))) < unat (- (dstNew + i))" by metis
  then show ?case by (simp only: in_measure prod.case)
qed

declare NodeAppendRange_ptrs.simps [simp del] NodeAppendRange_offsets.simps [simp del]

definition NodeAppendRange ::
  "mem \<Rightarrow> BNode \<Rightarrow> BNode \<Rightarrow> uint16 \<Rightarrow> uint16 \<Rightarrow> uint16 \<Rightarrow> error + mem"
where
  "NodeAppendRange m new old dstNew srcOld n =
     thn (NKeys m old) (\<lambda>onk.
     thn (Assert (srcOld + n \<le> onk)) (\<lambda>_.
     thn (NKeys m new) (\<lambda>nnk.
     thn (Assert (dstNew + n \<le> nnk)) (\<lambda>_.
     if n = 0 then Inr m
     else
       thn (NodeAppendRange_ptrs m new old dstNew srcOld n 0) (\<lambda>m1.
       thn (GetOffset m1 new dstNew) (\<lambda>dstBegin.
       thn (GetOffset m1 old srcOld) (\<lambda>srcBegin.
       thn (NodeAppendRange_offsets m1 new old dstNew srcOld n dstBegin srcBegin 1) (\<lambda>m2.
       thn (KVPos m2 old srcOld) (\<lambda>begin.
       thn (KVPos m2 old (srcOld + n)) (\<lambda>end.
       thn (KVPos m2 new dstNew) (\<lambda>pos.
       thn (slice_range (m2 (Data old)) (unat begin) (unat end)) (\<lambda>src.
       thn (copy_at (m2 (Data new)) (unat pos) src) (\<lambda>b.
       Inr (m2(Data new := b)))))))))))))))"

definition NodeAppendKV ::
  "mem \<Rightarrow> BNode \<Rightarrow> uint16 \<Rightarrow> uint64 \<Rightarrow> byte list \<Rightarrow> byte list \<Rightarrow> error + mem"
where
  "NodeAppendKV m new idx ptr key val =
     thn (SetPtr m new idx ptr) (\<lambda>m1.
     thn (KVPos m1 new idx) (\<lambda>pos.
     thn (PutUint16 (m1 (Data new)) (unat (pos + 0)) (of_nat (length key))) (\<lambda>b2.
     thn (PutUint16 b2 (unat (pos + 2)) (of_nat (length val))) (\<lambda>b3.
     thn (copy_at b3 (unat (pos + 4)) key) (\<lambda>b4.
     thn (copy_at b4 (unat (pos + 4 + of_nat (length key))) val) (\<lambda>b5.
     thn (GetOffset (m1(Data new := b5)) new idx) (\<lambda>off.
     SetOffset (m1(Data new := b5)) new (idx + 1)
       (off + 4 + of_nat (length key + length val)))))))))"

definition LeafInsert ::
  "mem \<Rightarrow> BNode \<Rightarrow> BNode \<Rightarrow> uint16 \<Rightarrow> byte list \<Rightarrow> byte list \<Rightarrow> error + mem"
where
  "LeafInsert m new old idx key val =
     thn (NKeys m old) (\<lambda>onk.
     thn (SetHeader m new BNODE_BLEAF (onk + 1)) (\<lambda>m1.
     thn (NodeAppendRange m1 new old 0 0 idx) (\<lambda>m2.
     thn (NodeAppendKV m2 new idx 0 key val) (\<lambda>m3.
     thn (NKeys m3 old) (\<lambda>onk'.
     NodeAppendRange m3 new old (idx + 1) idx (onk' - idx))))))"

section \<open>Notions used in the proofs\<close>

text \<open>
  Two buffers of the same length that differ at most inside \<open>[lo, hi)\<close>, and two that
  agree on \<open>[lo, hi)\<close>.
\<close>

definition unchanged_outside :: "byte list \<Rightarrow> byte list \<Rightarrow> nat \<Rightarrow> nat \<Rightarrow> bool" where
  "unchanged_outside b b' lo hi \<longleftrightarrow>
     length b' = length b \<and> (\<forall>j. j < length b \<and> (j < lo \<or> hi \<le> j) \<longrightarrow> b' ! j = b ! j)"

definition agree_on :: "byte list \<Rightarrow> byte list \<Rightarrow> nat \<Rightarrow> nat \<Rightarrow> bool" where
  "agree_on b b' lo hi \<longleftrightarrow>
     length b' = length b \<and> (\<forall>j. j < length b \<and> lo \<le> j \<and> j < hi \<longrightarrow> b' ! j = b ! j)"

text \<open>
  A node whose header, pointer list and offset list lie inside its buffer, the buffer being
  short enough for \<^verbatim>\<open>uint16\<close> positions: then no position computed by the codec wraps.
\<close>

definition node_fits :: "mem \<Rightarrow> BNode \<Rightarrow> uint16 \<Rightarrow> bool" where
  "node_fits m n nk \<longleftrightarrow>
     NKeys m n = Inr nk \<and> 4 + 10 * unat nk \<le> length (m (Data n))
     \<and> length (m (Data n)) \<le> 65535"

section \<open>Example nodes\<close>

text \<open>
  A page holding a leaf with the two entries \<open>("a", "1")\<close> and \<open>("b", "2")\<close>:
  header, two pointers, the offsets 6 and 12, two records, then unused bytes.
\<close>

definition leaf_ab :: "byte list" where
  "leaf_ab = [2, 0, 2, 0,
              0, 0, 0, 0, 0, 0, 0, 0,  0, 0, 0, 0, 0, 0, 0, 0,
              6, 0, 12, 0,
              1, 0, 1, 0, 97, 49,  1, 0, 1, 0, 98, 50] @ replicate 4060 0"

definition mem_ab :: mem where
  "mem_ab = (\<lambda>_. [])(1 := leaf_ab)"

text \<open>The same leaf with another first key, \<open>"c"\<close>.\<close>

definition leaf_cb :: "byte list" where
  "leaf_cb = [2, 0, 2, 0,
              0, 0, 0, 0, 0, 0, 0, 0,  0, 0, 0, 0, 0, 0, 0, 0,
              6, 0, 12, 0,
              1, 0, 1, 0, 99, 49,  1, 0, 1, 0, 98, 50] @ replicate 4060 0"

definition mem_cb :: mem where
  "mem_cb = (\<lambda>_. [])(1 := leaf_cb)"

text \<open>An empty leaf and a page whose key count already reads 1.\<close>

definition leaf_empty :: "byte list" where
  "leaf_empty = [2, 0, 0, 0,
     0, 0, 0, 0, 0, 0, 0, 0, 0, 0, 0, 0, 0, 0, 0, 0, 0, 0, 0, 0, 0, 0, 0, 0, 0, 0, 0, 0]"

definition page_count1 :: "byte list" where
  "page_count1 = [0, 0, 1, 0,
     0, 0, 0, 0, 0, 0, 0, 0, 0, 0, 0, 0, 0, 0, 0, 0, 0, 0, 0, 0, 0, 0, 0, 0, 0, 0, 0, 0]"

definition mem_two :: mem where
  "mem_two = (\<lambda>_. [])(0 := page_count1, 1 := leaf_empty)"

definition page_count2 :: "byte list" where
  "page_count2 = [0, 0, 2, 0,
     0, 0, 0, 0, 0, 0, 0, 0, 0, 0, 0, 0, 0, 0, 0, 0, 0, 0, 0, 0, 0, 0, 0, 0, 0, 0, 0, 0, 0, 0, 0, 0, 0, 0, 0, 0]"

definition mem_copy :: mem where
  "mem_copy = (\<lambda>_. [])(0 := page_count2, 1 := leaf_ab)"


text \<open>The buffers these calls leave behind.\<close>

definition leaf_a1 :: "byte list" where
  "leaf_a1 = [1, 0, 1, 0,  0, 0, 0, 0, 0, 0, 0, 0,  6, 0,  1, 0, 1, 0, 97, 49,
     0, 0, 0, 0, 0, 0, 0, 0, 0, 0, 0, 0]"

definition page_kv :: "byte list" where
  "page_kv = [0, 0, 1, 0,  0, 0, 0, 0, 0, 0, 0, 0,  6, 0,  1, 0, 1, 0, 97, 49,
     0, 0, 0, 0, 0, 0, 0, 0, 0, 0, 0, 0]"

definition page_ab :: "byte list" where
  "page_ab = [0, 0, 2, 0,  0, 0, 0, 0, 0, 0, 0, 0,  0, 0, 0, 0, 0, 0, 0, 0,
       6, 0, 12, 0,  1, 0, 1, 0, 97, 49,  1, 0, 1, 0, 98, 50,  0, 0, 0, 0]"

text \<open>A freshly allocated, zeroed page next to an old leaf.\<close>

definition mem_fresh :: mem where
  "mem_fresh = (\<lambda>_. [])(0 := replicate BTREE_PAGE_SIZE 0, 1 := leaf_ab)"

definition mem_first :: mem where
  "mem_first = (\<lambda>_. [])(0 := replicate BTREE_PAGE_SIZE 0, 1 := [2, 0, 0, 0] @ replicate 4092 0)"

text \<open>
  A full page: a leaf with two records of 2036 bytes each (a key of one byte, a value of
  2031), 4096 bytes in all. Next to it a fresh page whose key count reads 3, and that page
  after the two records were appended to it.
\<close>

definition page_full :: "byte list" where
  "page_full = [2, 0, 2, 0,
                0, 0, 0, 0, 0, 0, 0, 0,  0, 0, 0, 0, 0, 0, 0, 0,
                244, 7, 232, 15]
               @ ([1, 0, 239, 7, 97] @ replicate 2031 49)
               @ ([1, 0, 239, 7, 98] @ replicate 2031 50)"

definition page_count3 :: "byte list" where
  "page_count3 = [0, 0, 3, 0,
                  0, 0, 0, 0, 0, 0, 0, 0,  0, 0, 0, 0, 0, 0, 0, 0,  0, 0, 0, 0, 0, 0, 0, 0,
                  0, 0, 0, 0, 0, 0] @ replicate 4062 0"

definition page_cut :: "byte list" where
  "page_cut = [0, 0, 3, 0,
               0, 0, 0, 0, 0, 0, 0, 0,  0, 0, 0, 0, 0, 0, 0, 0,  0, 0, 0, 0, 0, 0, 0, 0,
               244, 7, 232, 15, 0, 0]
              @ ([1, 0, 239, 7, 97] @ replicate 2031 49)
              @ ([1, 0, 239, 7, 98] @ replicate 2021 50)"

definition mem_full :: mem where
  "mem_full = (\<lambda>_. [])(0 := page_count3, 1 := page_full)"

section \<open>Basic facts\<close>

lemma thn_Inr [simp]: "thn (Inr x) f = f x"
  by (simp add: thn_def)

lemma thn_Inl [simp]: "thn (Inl e) f = Inl e"
  by (simp add: thn_def)

lemma thn_eq_Inr: "thn r f = Inr y \<longleftrightarrow> (\<exists>x. r = Inr x \<and> f x = Inr y)"
  by (cases r) simp_all

lemma Assert_eq_Inr [simp]: "Assert c = Inr u \<longleftrightarrow> c"
  by (simp add: Assert_def)

lemma Assert_True [simp]: "Assert True = Inr ()"
  by (simp add: Assert_def)

lemma Assert_False [simp]: "Assert False = Inl AssertFailed"
  by (simp add: Assert_def)

lemmas codec_defs = GetKey_def GetVal_def KVPos_def GetOffset_def OffsetPos_def NKeys_def
  BType_def Nbyte_def Uint16_def HEADER_def slice_len_def Assert_def

lemmas builder_defs = LeafInsert_def NodeAppendRange_def NodeAppendKV_def SetHeader_def SetPtr_def
  SetOffset_def PutUint16_def PutUint64_def copy_at_def slice_range_def BNODE_BLEAF_def

section \<open>Header\<close>

text \<open>
  C1. On a zeroed page, \<^verbatim>\<open>SetHeader(BNODE_BLEAF, 1)\<close> leaves the node with type 1 and
  key count 0: the second write lands on bytes 0 and 1, over the type, and bytes 2 and 3
  are never written.
\<close>

theorem SetHeader_overwrites_type:
  "thn (SetHeader (\<lambda>_. replicate BTREE_PAGE_SIZE 0) \<lparr>Data = 0\<rparr> BNODE_BLEAF 1)
       (\<lambda>m'. BType m' \<lparr>Data = 0\<rparr>) = Inr 1
   \<and> thn (SetHeader (\<lambda>_. replicate BTREE_PAGE_SIZE 0) \<lparr>Data = 0\<rparr> BNODE_BLEAF 1)
       (\<lambda>m'. NKeys m' \<lparr>Data = 0\<rparr>) = Inr 0"
  by (simp add: SetHeader_def PutUint16_def BType_def NKeys_def Uint16_def
      BTREE_PAGE_SIZE_def BNODE_BLEAF_def)

section \<open>Positions and sizes\<close>

text \<open>
  C8. For a node with key count \<open>nk\<close> and an index \<open>i \<le> nk\<close>, \<^verbatim>\<open>KVPos(i)\<close> is
  \<open>HEADER + 10 * nk\<close> plus the offset read at \<open>i\<close> (and fails where that read fails);
  the offset at index 0 is 0 without any read; \<^verbatim>\<open>Nbyte()\<close> is \<^verbatim>\<open>KVPos(nk)\<close>;
  and a node with no key has size 4. The arithmetic is that of \<^verbatim>\<open>uint16\<close>.
\<close>

theorem KVPos_formula:
  assumes "NKeys m n = Inr nk" and "i \<le> nk"
  shows "KVPos m n i = thn (GetOffset m n i) (\<lambda>off. Inr (HEADER + 10 * nk + off))
       \<and> GetOffset m n 0 = Inr 0
       \<and> Nbyte m n = KVPos m n nk
       \<and> (nk = 0 \<longrightarrow> Nbyte m n = Inr 4)"
  using assms by (simp add: KVPos_def Nbyte_def GetOffset_def HEADER_def thn_def split: sum.splits)

theorem KVPos_formula_witness:
  "NKeys mem_ab \<lparr>Data = 1\<rparr> = Inr 2 \<and> (2 :: uint16) \<le> 2
   \<and> KVPos mem_ab \<lparr>Data = 1\<rparr> 2 = Inr (HEADER + 10 * 2 + 12)
   \<and> Nbyte mem_ab \<lparr>Data = 1\<rparr> = Inr 36
   \<and> NKeys (\<lambda>_. replicate BTREE_PAGE_SIZE 0) \<lparr>Data = 0\<rparr> = Inr 0
   \<and> Nbyte (\<lambda>_. replicate BTREE_PAGE_SIZE 0) \<lparr>Data = 0\<rparr> = Inr 4"
proof -
  have nk: "NKeys mem_ab \<lparr>Data = 1\<rparr> = Inr 2"
    by (simp add: NKeys_def mem_ab_def leaf_ab_def Uint16_def)
  have off: "GetOffset mem_ab \<lparr>Data = 1\<rparr> 2 = Inr 12"
    by (simp add: GetOffset_def OffsetPos_def NKeys_def mem_ab_def leaf_ab_def Uint16_def
        HEADER_def)
  have nk0: "NKeys (\<lambda>_. replicate BTREE_PAGE_SIZE 0) \<lparr>Data = 0\<rparr> = Inr 0"
    by (simp add: NKeys_def Uint16_def BTREE_PAGE_SIZE_def)
  show ?thesis
    using KVPos_formula [OF nk, of 2] KVPos_formula [OF nk0, of 0] nk off nk0
    by (simp add: HEADER_def)
qed

section \<open>Bounds of the key and value accessors\<close>

lemma GetKey_beyond: "NKeys m n = Inr nk \<Longrightarrow> nk < i \<Longrightarrow> GetKey m n i = Inl AssertFailed"
  by (simp add: GetKey_def not_le [THEN iffD2])

lemma GetVal_beyond: "NKeys m n = Inr nk \<Longrightarrow> nk < i \<Longrightarrow> GetVal m n i = Inl AssertFailed"
  by (simp add: GetVal_def not_le [THEN iffD2])

text \<open>
  C3. The leaf \<open>leaf_ab\<close> has two keys. \<^verbatim>\<open>GetKey(2)\<close> and \<^verbatim>\<open>GetVal(2)\<close>, at the
  key count itself, pass the assertion \<open>idx \<le> NKeys\<close> and return the empty byte string
  decoded from the unused bytes behind the last record.
\<close>

theorem GetKey_at_key_count:
  "NKeys mem_ab \<lparr>Data = 1\<rparr> = Inr 2
   \<and> GetKey mem_ab \<lparr>Data = 1\<rparr> 2 = Inr []
   \<and> GetVal mem_ab \<lparr>Data = 1\<rparr> 2 = Inr []"
  by (simp add: codec_defs mem_ab_def leaf_ab_def)

section \<open>Correctness of the lookup\<close>

subsection \<open>The byte order of \<^verbatim>\<open>bytes.Compare\<close>\<close>

lemma Compare_conv: "Compare a b = (if a < b then - 1 else if a = b then 0 else 1)"
  by (induction a b rule: Compare.induct) auto

lemma Compare_le_0 [simp]: "Compare a b \<le> 0 \<longleftrightarrow> a \<le> b"
  by (auto simp: Compare_conv)

lemma Compare_less_0 [simp]: "Compare a b < 0 \<longleftrightarrow> a < b"
  by (auto simp: Compare_conv)

lemma Compare_ge_0 [simp]: "0 \<le> Compare a b \<longleftrightarrow> b \<le> a"
  by (auto simp: Compare_conv)

lemma ascending_pairwise:
  fixes f :: "nat \<Rightarrow> 'a::order"
  assumes "\<forall>i. Suc i < n \<longrightarrow> f i < f (Suc i)" and "a < b" and "b < n"
  shows "f a < f b"
  using assms(2,3)
proof (induction b)
  case 0
  then show ?case by simp
next
  case (Suc b)
  have step: "f b < f (Suc b)" using assms(1) Suc.prems(2) by simp
  show ?case
  proof (cases "a = b")
    case True
    then show ?thesis using step by simp
  next
    case False
    then have "f a < f b" using Suc by simp
    then show ?thesis using step by (rule less_trans)
  qed
qed

subsection \<open>The lookup loop\<close>

text \<open>What the loop returns when it stops without a match at \<open>i\<close>.\<close>

lemma lookup_found_ok:
  fixes ks :: "nat \<Rightarrow> byte list"
  assumes "1 \<le> unat i" and "unat found = unat i - 1"
    and "\<forall>j. 1 \<le> j \<and> j < unat i \<longrightarrow> ks j < key"
    and "unat i \<le> n"
  shows "found = 0 \<or> (unat found < n \<and> ks (unat found) \<le> key)"
proof (cases "unat found = 0")
  case True
  then show ?thesis by (simp add: unat_eq_0)
next
  case False
  then have f: "1 \<le> unat found" "unat found < unat i" using assms(1,2) by arith+
  then have "ks (unat found) < key" using assms(3) by blast
  moreover have "unat found < n" using f assms(4) by arith
  ultimately show ?thesis by (simp add: less_imp_le)
qed

lemma NodeLookUpLE_loop_spec:
  fixes ks :: "nat \<Rightarrow> byte list"
  assumes gk: "\<forall>j. 1 \<le> j \<and> j < unat nk \<longrightarrow> gk (of_nat j) = Inr (ks j)"
    and asc: "\<forall>a b. 1 \<le> a \<and> a < b \<and> b < unat nk \<longrightarrow> ks a < ks b"
  shows "1 \<le> unat i \<Longrightarrow> unat found = unat i - 1 \<Longrightarrow> unat i \<le> unat nk \<or> unat i = 1
    \<Longrightarrow> \<forall>j. 1 \<le> j \<and> j < unat i \<longrightarrow> ks j < key
    \<Longrightarrow> \<exists>r. NodeLookUpLE_loop gk key nk found i = Inr r
          \<and> (r = 0 \<or> (unat r < unat nk \<and> ks (unat r) \<le> key))
          \<and> (\<forall>j. 1 \<le> j \<and> j < unat nk \<and> ks j \<le> key \<longrightarrow> j \<le> unat r)"
  using gk asc
proof (induction gk key nk found i rule: NodeLookUpLE_loop.induct)
  case (1 gk key nkeys found i)
  note i1 = "1.prems"(1) and fnd = "1.prems"(2) and rng = "1.prems"(3) and below = "1.prems"(4)
    and gk = "1.prems"(5) and asc = "1.prems"(6)
  show ?case
  proof (cases "i < nkeys")
    case False
    then have ge: "unat nkeys \<le> unat i" by (simp add: word_less_nat_alt)
    have res: "NodeLookUpLE_loop gk key nkeys found i = Inr found"
      using False by (subst NodeLookUpLE_loop.simps) simp
    have a: "found = 0 \<or> (unat found < unat nkeys \<and> ks (unat found) \<le> key)"
    proof (cases "unat i \<le> unat nkeys")
      case True
      show ?thesis by (rule lookup_found_ok [OF i1 fnd below True])
    next
      case False
      then have "unat found = 0" using rng fnd by arith
      then show ?thesis by (simp add: unat_eq_0)
    qed
    have b: "j \<le> unat found" if "1 \<le> j" "j < unat nkeys" for j
      using that ge fnd by arith
    show ?thesis using res a b by simp
  next
    case True
    then have lt: "unat i < unat nkeys" by (simp add: word_less_nat_alt)
    have inc: "unat (i + 1) = unat i + 1" using True by (rule unat_inc)
    have gki: "gk i = Inr (ks (unat i))"
    proof -
      have "gk (of_nat (unat i)) = Inr (ks (unat i))"
        using gk i1 lt by blast
      then show ?thesis by simp
    qed
    have above: "ks (unat i) < ks j" if "unat i < j" "j < unat nkeys" for j
      using asc i1 that by blast
    consider (eq) "ks (unat i) = key" | (gt) "key < ks (unat i)" | (lt) "ks (unat i) < key"
      using less_linear by blast
    then show ?thesis
    proof cases
      case eq
      have res: "NodeLookUpLE_loop gk key nkeys found i = Inr i"
        using True gki eq by (subst NodeLookUpLE_loop.simps) simp
      have "j \<le> unat i" if "j < unat nkeys" "ks j \<le> key" for j
      proof (rule ccontr)
        assume "\<not> j \<le> unat i"
        then have "ks (unat i) < ks j" using above that(1) by simp
        then show False using that(2) eq by simp
      qed
      then show ?thesis using res lt eq by simp
    next
      case gt
      have res: "NodeLookUpLE_loop gk key nkeys found i = Inr found"
        using True gki gt by (subst NodeLookUpLE_loop.simps) (simp add: Let_def less_le_not_le)
      have a: "found = 0 \<or> (unat found < unat nkeys \<and> ks (unat found) \<le> key)"
        by (rule lookup_found_ok [OF i1 fnd below less_imp_le [OF lt]])
      have "j \<le> unat found" if "j < unat nkeys" "ks j \<le> key" for j
      proof (rule ccontr)
        assume n: "\<not> j \<le> unat found"
        then have "unat i \<le> j" using fnd by simp
        then have "ks (unat i) \<le> ks j"
          using above [OF _ that(1)] by (cases "unat i = j") (simp_all add: less_imp_le)
        then show False using that(2) gt by simp
      qed
      then show ?thesis using res a by simp
    next
      case lt
      have unf: "NodeLookUpLE_loop gk key nkeys found i = NodeLookUpLE_loop gk key nkeys i (i + 1)"
        using True gki lt by (subst NodeLookUpLE_loop.simps) (simp add: Let_def less_le_not_le)
      have fnd': "(if Compare (ks (unat i)) key \<le> 0 then i else found) = i"
        using lt by (simp add: less_imp_le)
      have "\<exists>r. NodeLookUpLE_loop gk key nkeys i (i + 1) = Inr r
          \<and> (r = 0 \<or> (unat r < unat nkeys \<and> ks (unat r) \<le> key))
          \<and> (\<forall>j. 1 \<le> j \<and> j < unat nkeys \<and> ks j \<le> key \<longrightarrow> j \<le> unat r)"
      proof (rule "1.IH" [OF True gki refl refl, unfolded fnd', OF _ _ _ _ _ gk asc])
        show "\<not> 0 \<le> Compare (ks (unat i)) key" using lt by simp
        show "1 \<le> unat (i + 1)" using inc by simp
        show "unat i = unat (i + 1) - 1"
          using inc by simp
        show "unat (i + 1) \<le> unat nkeys \<or> unat (i + 1) = 1"
          using inc \<open>unat i < unat nkeys\<close> by simp
        show "\<forall>j. 1 \<le> j \<and> j < unat (i + 1) \<longrightarrow> ks j < key"
          using inc below lt by (simp add: less_Suc_eq) blast
      qed
      then show ?thesis using unf lt by simp
    qed
  qed
qed


text \<open>
  C4. Let the node have \<open>nk\<close> keys, all readable, \<open>ks i\<close> being the key at index \<open>i\<close>,
  and let neighbouring keys be strictly ascending under \<^verbatim>\<open>bytes.Compare\<close>. Then
  \<^verbatim>\<open>NodeLookUpLE\<close> returns an index \<open>r\<close> such that: \<open>r\<close> is 0 or an index below
  \<open>nk\<close> whose key is at most the search key; every index from 1 on whose key is at most
  the search key is at most \<open>r\<close> (so \<open>r = 0\<close> when there is none); and when the key
  at index 0 is itself at most the search key, \<open>r\<close> is the largest index in \<open>[0, nk)\<close>
  with that property.
\<close>

theorem NodeLookUpLE_largest_le:
  fixes ks :: "nat \<Rightarrow> byte list"
  assumes nk: "NKeys m n = Inr nk"
    and keys: "\<forall>i < unat nk. GetKey m n (of_nat i) = Inr (ks i)"
    and asc: "\<forall>i. Suc i < unat nk \<longrightarrow> Compare (ks i) (ks (Suc i)) < 0"
  shows "\<exists>r. NodeLookUpLE m n key = Inr r
     \<and> (r = 0 \<or> (unat r < unat nk \<and> Compare (ks (unat r)) key \<le> 0))
     \<and> (\<forall>j. 1 \<le> j \<and> j < unat nk \<and> Compare (ks j) key \<le> 0 \<longrightarrow> j \<le> unat r)
     \<and> (0 < unat nk \<and> Compare (ks 0) key \<le> 0 \<longrightarrow>
          unat r < unat nk \<and> Compare (ks (unat r)) key \<le> 0
          \<and> (\<forall>j < unat nk. Compare (ks j) key \<le> 0 \<longrightarrow> j \<le> unat r))"
proof -
  have adj: "\<forall>i. Suc i < unat nk \<longrightarrow> ks i < ks (Suc i)"
    using asc by simp
  have pw: "\<forall>a b. 1 \<le> a \<and> a < b \<and> b < unat nk \<longrightarrow> ks a < ks b"
    using ascending_pairwise [OF adj] by blast
  have gk: "\<forall>j. 1 \<le> j \<and> j < unat nk \<longrightarrow> GetKey m n (of_nat j) = Inr (ks j)"
    using keys by blast
  have "\<exists>r. NodeLookUpLE_loop (GetKey m n) key nk 0 1 = Inr r
          \<and> (r = 0 \<or> (unat r < unat nk \<and> ks (unat r) \<le> key))
          \<and> (\<forall>j. 1 \<le> j \<and> j < unat nk \<and> ks j \<le> key \<longrightarrow> j \<le> unat r)"
    by (rule NodeLookUpLE_loop_spec [OF gk pw]) simp_all
  then obtain r where r: "NodeLookUpLE_loop (GetKey m n) key nk 0 1 = Inr r"
    and r0: "r = 0 \<or> (unat r < unat nk \<and> ks (unat r) \<le> key)"
    and rmax: "\<forall>j. 1 \<le> j \<and> j < unat nk \<and> ks j \<le> key \<longrightarrow> j \<le> unat r"
    by blast
  have res: "NodeLookUpLE m n key = Inr r"
    using nk r by (simp add: NodeLookUpLE_def)
  have lit: "unat r < unat nk \<and> ks (unat r) \<le> key
      \<and> (\<forall>j < unat nk. ks j \<le> key \<longrightarrow> j \<le> unat r)"
    if "0 < unat nk" "ks 0 \<le> key"
  proof -
    have "unat r < unat nk \<and> ks (unat r) \<le> key"
      using r0 that by auto
    moreover have "j \<le> unat r" if "j < unat nk" "ks j \<le> key" for j
      using rmax that by (cases "j = 0") simp_all
    ultimately show ?thesis by blast
  qed
  show ?thesis
    using res r0 rmax lit by simp
qed

theorem NodeLookUpLE_largest_le_witness:
  "NKeys mem_ab \<lparr>Data = 1\<rparr> = Inr 2
   \<and> GetKey mem_ab \<lparr>Data = 1\<rparr> 0 = Inr [97]
   \<and> GetKey mem_ab \<lparr>Data = 1\<rparr> 1 = Inr [98]
   \<and> Compare [97] [98] < 0
   \<and> NodeLookUpLE mem_ab \<lparr>Data = 1\<rparr> [98, 0] = Inr 1"
proof -
  let ?ks = "\<lambda>i::nat. if i = 0 then [97] else [98 :: byte]"
  have nk: "NKeys mem_ab \<lparr>Data = 1\<rparr> = Inr 2"
    by (simp add: NKeys_def mem_ab_def leaf_ab_def Uint16_def)
  have k0: "GetKey mem_ab \<lparr>Data = 1\<rparr> 0 = Inr [97]"
    by (simp add: codec_defs mem_ab_def leaf_ab_def)
  have k1: "GetKey mem_ab \<lparr>Data = 1\<rparr> 1 = Inr [98]"
    by (simp add: codec_defs mem_ab_def leaf_ab_def)
  have keys: "\<forall>i < unat (2 :: uint16). GetKey mem_ab \<lparr>Data = 1\<rparr> (of_nat i) = Inr (?ks i)"
  proof (intro allI impI)
    fix i :: nat
    assume "i < unat (2 :: uint16)"
    then have "i = 0 \<or> i = 1" by auto
    then show "GetKey mem_ab \<lparr>Data = 1\<rparr> (of_nat i) = Inr (?ks i)"
      using k0 k1 by auto
  qed
  have asc: "\<forall>i. Suc i < unat (2 :: uint16) \<longrightarrow> Compare (?ks i) (?ks (Suc i)) < 0"
    by simp
  obtain r where r: "NodeLookUpLE mem_ab \<lparr>Data = 1\<rparr> [98, 0] = Inr r"
    and r0: "r = 0 \<or> (unat r < unat (2 :: uint16) \<and> Compare (?ks (unat r)) [98, 0] \<le> 0)"
    and rmax: "\<forall>j. 1 \<le> j \<and> j < unat (2 :: uint16) \<and> Compare (?ks j) [98, 0] \<le> 0 \<longrightarrow> j \<le> unat r"
    using NodeLookUpLE_largest_le [OF nk keys asc, of "[98, 0]"] by blast
  have "1 \<le> unat r" using rmax by simp
  moreover have "unat r < 2" using r0 calculation by auto
  ultimately have "unat r = 1" by simp
  then have "r = 1" by (metis unat_1 word_unat_eq_iff)
  then show ?thesis using nk k0 k1 r by simp
qed


subsection \<open>Range of the result, and the sentinel key\<close>

lemma NodeLookUpLE_loop_range:
  "NodeLookUpLE_loop gk key nk found i = Inr r \<Longrightarrow> r = found \<or> r < nk"
proof (induction gk key nk found i rule: NodeLookUpLE_loop.induct)
  case (1 gk key nkeys found i)
  show ?case
  proof (cases "i < nkeys")
    case False
    then show ?thesis using "1.prems" by (subst (asm) NodeLookUpLE_loop.simps) simp
  next
    case True
    then obtain k where k: "gk i = Inr k"
      using "1.prems" by (subst (asm) NodeLookUpLE_loop.simps) (auto split: sum.splits)
    let ?found' = "if Compare k key \<le> 0 then i else found"
    show ?thesis
    proof (cases "0 \<le> Compare k key")
      case stop: True
      then have "r = ?found'"
        using "1.prems" True k by (subst (asm) NodeLookUpLE_loop.simps) (simp add: Let_def)
      then show ?thesis using True by (auto split: if_splits)
    next
      case go: False
      then have "NodeLookUpLE_loop gk key nkeys ?found' (i + 1) = Inr r"
        using "1.prems" True k by (subst (asm) NodeLookUpLE_loop.simps) (simp add: Let_def)
      then have "r = ?found' \<or> r < nkeys"
        using "1.IH" [OF True k refl refl] go by simp
      then show ?thesis using True by (auto split: if_splits)
    qed
  qed
qed

lemma NodeLookUpLE_loop_cong:
  assumes "\<forall>j. j \<noteq> 0 \<longrightarrow> gk j = gk' j"
  shows "i \<noteq> 0 \<Longrightarrow> NodeLookUpLE_loop gk key nk found i = NodeLookUpLE_loop gk' key nk found i"
  using assms
proof (induction gk key nk found i rule: NodeLookUpLE_loop.induct)
  case (1 gk key nkeys found i)
  have same: "gk i = gk' i" using "1.prems" by simp
  show ?case
  proof (cases "i < nkeys")
    case False
    then show ?thesis
      by (simp add: NodeLookUpLE_loop.simps [of gk] NodeLookUpLE_loop.simps [of gk'])
  next
    case True
    then have nz: "i + 1 \<noteq> 0"
      using unat_inc [OF True] by (metis Suc_eq_plus1 nat.distinct(1) unat_0)
    show ?thesis
    proof (cases "gk i")
      case (Inl e)
      then have "gk' i = Inl e" using same by simp
      then show ?thesis using Inl True
        by (simp add: NodeLookUpLE_loop.simps [of gk _ _ found i]
            NodeLookUpLE_loop.simps [of gk' _ _ found i])
    next
      case (Inr k)
      then have k': "gk' i = Inr k" using same by simp
      show ?thesis
      proof (cases "0 \<le> Compare k key")
        case stop: True
        then show ?thesis using k' True Inr
          by (simp add: NodeLookUpLE_loop.simps [of gk _ _ found i]
              NodeLookUpLE_loop.simps [of gk' _ _ found i] Let_def)
      next
        case go: False
        have "NodeLookUpLE_loop gk key nkeys (if Compare k key \<le> 0 then i else found) (i + 1)
            = NodeLookUpLE_loop gk' key nkeys (if Compare k key \<le> 0 then i else found) (i + 1)"
          using "1.IH" [OF True Inr refl refl go nz] "1.prems"(2) by simp
        then show ?thesis using k' True Inr go
          by (simp add: NodeLookUpLE_loop.simps [of gk _ _ found i]
              NodeLookUpLE_loop.simps [of gk' _ _ found i] Let_def)
      qed
    qed
  qed
qed

text \<open>
  C10. When the node has at least one key, an index returned by \<^verbatim>\<open>NodeLookUpLE\<close> is
  below the key count. When it has none, the result is 0, whatever the key accessor would
  do: the loop does not call it. The loop never asks for the key at index 0: two key
  accessors that agree on every other index give the same result, so two nodes with the
  same key count whose keys agree from index 1 on are looked up alike.
\<close>

theorem NodeLookUpLE_index_in_range:
  "(NKeys m n = Inr nk \<and> 1 \<le> nk \<and> NodeLookUpLE m n key = Inr r \<longrightarrow> r < nk)
   \<and> (NKeys m n = Inr 0 \<longrightarrow> NodeLookUpLE m n key = Inr 0)
   \<and> NodeLookUpLE_loop gk key 0 0 1 = Inr 0
   \<and> ((\<forall>i. i \<noteq> 0 \<longrightarrow> gk i = gk' i) \<longrightarrow>
        NodeLookUpLE_loop gk key nk 0 1 = NodeLookUpLE_loop gk' key nk 0 1)
   \<and> (NKeys m n = NKeys m' n' \<and> (\<forall>i. i \<noteq> 0 \<longrightarrow> GetKey m n i = GetKey m' n' i) \<longrightarrow>
        NodeLookUpLE m n key = NodeLookUpLE m' n' key)"
proof (intro conjI impI)
  assume a: "NKeys m n = Inr nk \<and> 1 \<le> nk \<and> NodeLookUpLE m n key = Inr r"
  then have "NodeLookUpLE_loop (GetKey m n) key nk 0 1 = Inr r"
    by (clarsimp simp: NodeLookUpLE_def)
  then have "r = 0 \<or> r < nk" by (rule NodeLookUpLE_loop_range)
  moreover have "0 < nk" using a by (clarsimp simp: word_le_nat_alt word_less_nat_alt)
  ultimately show "r < nk" by auto
next
  show z: "NodeLookUpLE_loop gk key 0 0 1 = Inr 0" for gk
    by (subst NodeLookUpLE_loop.simps) simp
  assume "NKeys m n = Inr 0"
  then show "NodeLookUpLE m n key = Inr 0"
    by (simp add: NodeLookUpLE_def z)
next
  assume "\<forall>i. i \<noteq> 0 \<longrightarrow> gk i = gk' i"
  then show "NodeLookUpLE_loop gk key nk 0 1 = NodeLookUpLE_loop gk' key nk 0 1"
    by (rule NodeLookUpLE_loop_cong) simp
next
  assume a: "NKeys m n = NKeys m' n' \<and> (\<forall>i. i \<noteq> 0 \<longrightarrow> GetKey m n i = GetKey m' n' i)"
  then have "NodeLookUpLE_loop (GetKey m n) key k 0 1 = NodeLookUpLE_loop (GetKey m' n') key k 0 1" for k
    by (intro NodeLookUpLE_loop_cong) simp_all
  then show "NodeLookUpLE m n key = NodeLookUpLE m' n' key"
    using a by (simp add: NodeLookUpLE_def)
qed


lemma uint16_cases_2:
  fixes i :: uint16
  assumes "i \<noteq> 0"
  shows "i = 1 \<or> i = 2 \<or> 2 < i"
proof -
  have "0 < unat i" using assms by (simp add: unat_gt_0)
  then have "unat i = unat (1 :: uint16) \<or> unat i = unat (2 :: uint16) \<or> unat (2 :: uint16) < unat i"
    by auto
  then show ?thesis
    by (simp only: word_unat_eq_iff [symmetric] word_less_nat_alt [symmetric])
qed

lemma same_but_first_key:
  "NKeys mem_ab \<lparr>Data = 1\<rparr> = NKeys mem_cb \<lparr>Data = 1\<rparr>
   \<and> (\<forall>i. i \<noteq> 0 \<longrightarrow> GetKey mem_ab \<lparr>Data = 1\<rparr> i = GetKey mem_cb \<lparr>Data = 1\<rparr> i)"
proof (intro conjI allI impI)
  have nk: "NKeys mem_ab \<lparr>Data = 1\<rparr> = Inr 2" "NKeys mem_cb \<lparr>Data = 1\<rparr> = Inr 2"
    by (simp_all add: NKeys_def Uint16_def mem_ab_def leaf_ab_def mem_cb_def leaf_cb_def)
  then show "NKeys mem_ab \<lparr>Data = 1\<rparr> = NKeys mem_cb \<lparr>Data = 1\<rparr>" by simp
  fix i :: uint16
  assume "i \<noteq> 0"
  then consider "i = 1" | "i = 2" | "2 < i" using uint16_cases_2 by blast
  then show "GetKey mem_ab \<lparr>Data = 1\<rparr> i = GetKey mem_cb \<lparr>Data = 1\<rparr> i"
  proof cases
    case 1
    then show ?thesis
      by (simp add: codec_defs mem_ab_def leaf_ab_def mem_cb_def leaf_cb_def)
  next
    case 2
    then show ?thesis
      by (simp add: codec_defs mem_ab_def leaf_ab_def mem_cb_def leaf_cb_def)
  next
    case 3
    then show ?thesis
      using GetKey_beyond [OF nk(1)] GetKey_beyond [OF nk(2)] by simp
  qed
qed

lemma first_keys_differ:
  "GetKey mem_ab \<lparr>Data = 1\<rparr> 0 = Inr [97] \<and> GetKey mem_cb \<lparr>Data = 1\<rparr> 0 = Inr [99]"
  by (simp add: codec_defs mem_ab_def leaf_ab_def mem_cb_def leaf_cb_def)

theorem NodeLookUpLE_index_in_range_witness:
  "NKeys mem_ab \<lparr>Data = 1\<rparr> = Inr 2 \<and> (1 :: uint16) \<le> 2
   \<and> NodeLookUpLE mem_ab \<lparr>Data = 1\<rparr> [98, 0] = Inr 1 \<and> (1 :: uint16) < 2
   \<and> NKeys (\<lambda>_. replicate 4096 0) \<lparr>Data = 0\<rparr> = Inr 0
   \<and> NodeLookUpLE (\<lambda>_. replicate 4096 0) \<lparr>Data = 0\<rparr> [98, 0] = Inr 0
   \<and> NodeLookUpLE_loop (\<lambda>i. if i = 0 then Inl OutOfRange else GetKey mem_ab \<lparr>Data = 1\<rparr> i)
         [98, 0] 2 0 1 = Inr 1
   \<and> GetKey mem_ab \<lparr>Data = 1\<rparr> 0 = Inr [97] \<and> GetKey mem_cb \<lparr>Data = 1\<rparr> 0 = Inr [99]
   \<and> NodeLookUpLE mem_cb \<lparr>Data = 1\<rparr> [98, 0] = Inr 1"
proof -
  let ?gk' = "\<lambda>i. if i = 0 then Inl OutOfRange else GetKey mem_ab \<lparr>Data = 1\<rparr> i"
  have nk: "NKeys mem_ab \<lparr>Data = 1\<rparr> = Inr 2"
    by (simp add: NKeys_def mem_ab_def leaf_ab_def Uint16_def)
  have k1: "GetKey mem_ab \<lparr>Data = 1\<rparr> 1 = Inr [98]"
    by (simp add: codec_defs mem_ab_def leaf_ab_def)
  have loop: "NodeLookUpLE_loop (GetKey mem_ab \<lparr>Data = 1\<rparr>) [98, 0] 2 0 1 = Inr 1"
    using k1
    by (simp add: NodeLookUpLE_loop.simps [of _ _ _ _ 1] NodeLookUpLE_loop.simps [of _ _ _ _ 2])
  have res: "NodeLookUpLE mem_ab \<lparr>Data = 1\<rparr> [98, 0] = Inr 1"
    using nk loop by (simp add: NodeLookUpLE_def)
  have nk0: "NKeys (\<lambda>_. replicate 4096 0) \<lparr>Data = 0\<rparr> = Inr 0"
    by (simp add: NKeys_def Uint16_def)
  have same: "\<forall>i. i \<noteq> 0 \<longrightarrow> GetKey mem_ab \<lparr>Data = 1\<rparr> i = ?gk' i"
    by simp
  have other: "NodeLookUpLE mem_ab \<lparr>Data = 1\<rparr> [98, 0] = NodeLookUpLE mem_cb \<lparr>Data = 1\<rparr> [98, 0]"
    using NodeLookUpLE_index_in_range
      [of mem_ab "\<lparr>Data = 1\<rparr>" 2 "[98, 0]" 1 _ _ mem_cb "\<lparr>Data = 1\<rparr>"]
      same_but_first_key
    by blast
  show ?thesis
    using NodeLookUpLE_index_in_range
      [of mem_ab "\<lparr>Data = 1\<rparr>" 2 "[98, 0]" 1 "GetKey mem_ab \<lparr>Data = 1\<rparr>" ?gk']
      NodeLookUpLE_index_in_range
      [of "\<lambda>_. replicate 4096 0" "\<lparr>Data = 0\<rparr>" 0 "[98, 0]"]
      nk res nk0 loop same other first_keys_differ
    by simp
qed

section \<open>The builders write only into the new node\<close>

lemma SetHeader_frame: "SetHeader m n t k = Inr m' \<Longrightarrow> a \<noteq> Data n \<Longrightarrow> m' a = m a"
  by (auto simp: SetHeader_def thn_eq_Inr)

lemma SetPtr_frame: "SetPtr m n idx v = Inr m' \<Longrightarrow> a \<noteq> Data n \<Longrightarrow> m' a = m a"
  by (auto simp: SetPtr_def thn_eq_Inr)

lemma SetOffset_frame: "SetOffset m n idx v = Inr m' \<Longrightarrow> a \<noteq> Data n \<Longrightarrow> m' a = m a"
  by (auto simp: SetOffset_def thn_eq_Inr)

lemma NodeAppendRange_ptrs_frame:
  "NodeAppendRange_ptrs m new old dstNew srcOld n i = Inr m' \<Longrightarrow> a \<noteq> Data new \<Longrightarrow> m' a = m a"
proof (induction m new old dstNew srcOld n i rule: NodeAppendRange_ptrs.induct)
  case (1 m new old dstNew srcOld n i)
  show ?case
  proof (cases "i < n")
    case False
    then show ?thesis using "1.prems"(1) by (simp add: NodeAppendRange_ptrs.simps [of m])
  next
    case True
    then obtain p m1 where p: "GetPtr m old (srcOld + i) = Inr p"
      and m1: "SetPtr m new (dstNew + i) p = Inr m1"
      and rest: "NodeAppendRange_ptrs m1 new old dstNew srcOld n (i + 1) = Inr m'"
      using "1.prems"(1) by (auto simp: NodeAppendRange_ptrs.simps [of m] split: sum.splits)
    have "m' a = m1 a" using "1.IH" [OF True p m1 rest "1.prems"(2)] .
    also have "m1 a = m a" using m1 "1.prems"(2) by (rule SetPtr_frame)
    finally show ?thesis .
  qed
qed

lemma NodeAppendRange_offsets_frame:
  "NodeAppendRange_offsets m new old dstNew srcOld n dstBegin srcBegin i = Inr m'
    \<Longrightarrow> a \<noteq> Data new \<Longrightarrow> m' a = m a"
proof (induction m new old dstNew srcOld n dstBegin srcBegin i rule: NodeAppendRange_offsets.induct)
  case (1 m new old dstNew srcOld n dstBegin srcBegin i)
  show ?case
  proof (cases "i \<le> n")
    case False
    then show ?thesis using "1.prems"(1) by (simp add: NodeAppendRange_offsets.simps [of m])
  next
    case True
    then obtain off m1 where off: "GetOffset m old (srcOld + i) = Inr off"
      and m1: "SetOffset m new (dstNew + i) (dstBegin + off - srcBegin) = Inr m1"
      and rest: "NodeAppendRange_offsets m1 new old dstNew srcOld n dstBegin srcBegin (i + 1) = Inr m'"
      using "1.prems"(1) by (auto simp: NodeAppendRange_offsets.simps [of m] split: sum.splits)
    have "m' a = m1 a" using "1.IH" [OF True off m1 rest "1.prems"(2)] .
    also have "m1 a = m a" using m1 "1.prems"(2) by (rule SetOffset_frame)
    finally show ?thesis .
  qed
qed

lemma NodeAppendRange_frame:
  assumes "NodeAppendRange m new old dstNew srcOld n = Inr m'" and "a \<noteq> Data new"
  shows "m' a = m a"
proof (cases "n = 0")
  case True
  then show ?thesis using assms by (auto simp: NodeAppendRange_def thn_eq_Inr)
next
  case False
  then obtain m1 m2 dstBegin srcBegin b where
    m1: "NodeAppendRange_ptrs m new old dstNew srcOld n 0 = Inr m1"
    and m2: "NodeAppendRange_offsets m1 new old dstNew srcOld n dstBegin srcBegin 1 = Inr m2"
    and m': "m' = m2(Data new := b)"
    using assms(1) by (auto simp: NodeAppendRange_def thn_eq_Inr)
  show ?thesis
    using NodeAppendRange_ptrs_frame [OF m1 assms(2)] NodeAppendRange_offsets_frame [OF m2 assms(2)]
      m' assms(2) by simp
qed

lemma NodeAppendKV_frame:
  assumes "NodeAppendKV m new idx ptr key val = Inr m'" and "a \<noteq> Data new"
  shows "m' a = m a"
proof -
  obtain m1 b5 v where m1: "SetPtr m new idx ptr = Inr m1"
    and m': "SetOffset (m1(Data new := b5)) new (idx + 1) v = Inr m'"
    using assms(1) by (auto simp: NodeAppendKV_def thn_eq_Inr)
  show ?thesis
    using SetPtr_frame [OF m1 assms(2)] SetOffset_frame [OF m' assms(2)] assms(2) by simp
qed

lemma LeafInsert_frame:
  assumes "LeafInsert m new old idx key val = Inr m'" and "a \<noteq> Data new"
  shows "m' a = m a"
proof -
  obtain onk m1 m2 m3 onk' where m1: "SetHeader m new BNODE_BLEAF (onk + 1) = Inr m1"
    and m2: "NodeAppendRange m1 new old 0 0 idx = Inr m2"
    and m3: "NodeAppendKV m2 new idx 0 key val = Inr m3"
    and m': "NodeAppendRange m3 new old (idx + 1) idx (onk' - idx) = Inr m'"
    using assms(1) by (auto simp: LeafInsert_def thn_eq_Inr)
  show ?thesis
    using SetHeader_frame [OF m1 assms(2)] NodeAppendRange_frame [OF m2 assms(2)]
      NodeAppendKV_frame [OF m3 assms(2)] NodeAppendRange_frame [OF m' assms(2)] by simp
qed

text \<open>
  C9. A call of \<^verbatim>\<open>LeafInsert\<close>, \<^verbatim>\<open>NodeAppendRange\<close> or \<^verbatim>\<open>NodeAppendKV\<close> that
  returns has changed no buffer other than the one of \<open>new\<close>; so the bytes of \<open>old\<close>
  are as before whenever \<open>old\<close> is not the very buffer being written.
\<close>

theorem builders_write_only_new:
  "(LeafInsert m new old idx key val = Inr m' \<longrightarrow>
      (\<forall>a. a \<noteq> Data new \<longrightarrow> m' a = m a)
      \<and> (Data old \<noteq> Data new \<longrightarrow> m' (Data old) = m (Data old)))
   \<and> (NodeAppendRange m new old dstNew srcOld k = Inr m' \<longrightarrow>
      (\<forall>a. a \<noteq> Data new \<longrightarrow> m' a = m a)
      \<and> (Data old \<noteq> Data new \<longrightarrow> m' (Data old) = m (Data old)))
   \<and> (NodeAppendKV m new idx ptr key val = Inr m' \<longrightarrow>
      (\<forall>a. a \<noteq> Data new \<longrightarrow> m' a = m a)
      \<and> (Data old \<noteq> Data new \<longrightarrow> m' (Data old) = m (Data old)))"
  by (intro conjI impI allI)
     (erule LeafInsert_frame NodeAppendRange_frame NodeAppendKV_frame, assumption)+


theorem builders_write_only_new_witness:
  "LeafInsert mem_two \<lparr>Data = 0\<rparr> \<lparr>Data = 1\<rparr> 0 [97] [49] = Inr (mem_two(0 := leaf_a1))
   \<and> (mem_two(0 := leaf_a1)) (Data \<lparr>Data = 1\<rparr>) = mem_two (Data \<lparr>Data = 1\<rparr>)
   \<and> NodeAppendRange mem_copy \<lparr>Data = 0\<rparr> \<lparr>Data = 1\<rparr> 0 0 2 = Inr (mem_copy(0 := page_ab))
   \<and> (mem_copy(0 := page_ab)) (Data \<lparr>Data = 1\<rparr>) = mem_copy (Data \<lparr>Data = 1\<rparr>)
   \<and> NodeAppendKV mem_two \<lparr>Data = 0\<rparr> 0 0 [97] [49] = Inr (mem_two(0 := page_kv))
   \<and> (mem_two(0 := page_kv)) (Data \<lparr>Data = 1\<rparr>) = mem_two (Data \<lparr>Data = 1\<rparr>)"
proof -
  have li: "LeafInsert mem_two \<lparr>Data = 0\<rparr> \<lparr>Data = 1\<rparr> 0 [97] [49] = Inr (mem_two(0 := leaf_a1))"
    by (simp add: builder_defs codec_defs mem_two_def page_count1_def leaf_empty_def leaf_a1_def)
  have ar: "NodeAppendRange mem_copy \<lparr>Data = 0\<rparr> \<lparr>Data = 1\<rparr> 0 0 2 = Inr (mem_copy(0 := page_ab))"
    by (simp add: builder_defs codec_defs mem_copy_def page_count2_def leaf_ab_def page_ab_def
        NodeAppendRange_ptrs.simps NodeAppendRange_offsets.simps GetPtr_def Uint64_def)
  have kv: "NodeAppendKV mem_two \<lparr>Data = 0\<rparr> 0 0 [97] [49] = Inr (mem_two(0 := page_kv))"
    by (simp add: builder_defs codec_defs mem_two_def page_count1_def leaf_empty_def page_kv_def)
  have d: "Data \<lparr>Data = 1\<rparr> \<noteq> Data \<lparr>Data = 0\<rparr>"
    by simp
  show ?thesis
    using li ar kv d
      builders_write_only_new [of mem_two "\<lparr>Data = 0\<rparr>" "\<lparr>Data = 1\<rparr>" 0 "[97]" "[49]"
        "mem_two(0 := leaf_a1)"]
      builders_write_only_new [of mem_copy "\<lparr>Data = 0\<rparr>" "\<lparr>Data = 1\<rparr>" _ _ _
        "mem_copy(0 := page_ab)" 0 0 2]
      builders_write_only_new [of mem_two "\<lparr>Data = 0\<rparr>" "\<lparr>Data = 1\<rparr>" 0 "[97]" "[49]"
        "mem_two(0 := page_kv)" _ _ _ 0]
    by simp
qed

section \<open>\<^verbatim>\<open>LeafInsert\<close> on a fresh page\<close>

text \<open>
  C2. The old leaf \<open>leaf_ab\<close> holds the keys \<open>"a"\<close> and \<open>"b"\<close>; inserting
  \<open>("ab", "3")\<close> at index 1 into a zeroed page stops at the assertion
  \<open>dstNew + n \<le> new.NKeys()\<close> of the first \<^verbatim>\<open>NodeAppendRange\<close>: \<^verbatim>\<open>SetHeader\<close> has
  left the key count of the new page at 0, so no node is built whose keys could be read.
\<close>

theorem LeafInsert_fresh_page_fails:
  "NKeys mem_fresh \<lparr>Data = 1\<rparr> = Inr 2
   \<and> LeafInsert mem_fresh \<lparr>Data = 0\<rparr> \<lparr>Data = 1\<rparr> 1 [97, 98] [51] = Inl AssertFailed"
  by (simp add: builder_defs codec_defs mem_fresh_def leaf_ab_def BTREE_PAGE_SIZE_def)

text \<open>
  C5. Inserting \<open>("a", "1")\<close> at index 0 of an empty leaf into a zeroed page stops at the
  assertion \<open>idx < NKeys()\<close> of \<^verbatim>\<open>SetPtr\<close>: after \<^verbatim>\<open>SetHeader(BNODE_BLEAF, 1)\<close> the
  new page still has key count 0.
\<close>

theorem LeafInsert_into_empty_leaf_fails:
  "NKeys mem_first \<lparr>Data = 1\<rparr> = Inr 0
   \<and> LeafInsert mem_first \<lparr>Data = 0\<rparr> \<lparr>Data = 1\<rparr> 0 [97] [49] = Inl AssertFailed
   \<and> thn (SetHeader mem_first \<lparr>Data = 0\<rparr> BNODE_BLEAF 1) (\<lambda>m'. NKeys m' \<lparr>Data = 0\<rparr>) = Inr 0"
  by (simp add: builder_defs codec_defs mem_first_def BTREE_PAGE_SIZE_def)

section \<open>Writes and reads on regions of a buffer\<close>

lemma agree_on_refl [simp]: "agree_on b b lo hi"
  by (simp add: agree_on_def)

lemma agree_on_trans: "agree_on b b' lo hi \<Longrightarrow> agree_on b' b'' lo hi \<Longrightarrow> agree_on b b'' lo hi"
  by (simp add: agree_on_def)

lemma agree_on_sub: "agree_on b b' lo hi \<Longrightarrow> lo \<le> x \<Longrightarrow> y \<le> hi \<Longrightarrow> agree_on b b' x y"
  by (simp add: agree_on_def)

lemma unchanged_agree:
  "unchanged_outside b b' lo hi \<Longrightarrow> y \<le> lo \<or> hi \<le> x \<Longrightarrow> agree_on b b' x y"
  by (auto simp: agree_on_def unchanged_outside_def)

lemma unchanged_outside_refl [simp]: "unchanged_outside b b lo hi"
  by (simp add: unchanged_outside_def)

lemma unchanged_outside_length: "unchanged_outside b b' lo hi \<Longrightarrow> length b' = length b"
  by (simp add: unchanged_outside_def)

lemma unchanged_outside_trans:
  "unchanged_outside b b' lo hi \<Longrightarrow> unchanged_outside b' b'' lo' hi'
    \<Longrightarrow> lo'' \<le> lo \<Longrightarrow> lo'' \<le> lo' \<Longrightarrow> hi \<le> hi'' \<Longrightarrow> hi' \<le> hi''
    \<Longrightarrow> unchanged_outside b b'' lo'' hi''"
  by (auto simp: unchanged_outside_def)

lemma Uint16_agree: "agree_on b b' pos (pos + 2) \<Longrightarrow> Uint16 b' pos = Uint16 b pos"
  by (auto simp: agree_on_def Uint16_def)

lemma Uint64_agree: "agree_on b b' pos (pos + 8) \<Longrightarrow> Uint64 b' pos = Uint64 b pos"
  by (auto simp: agree_on_def Uint64_def)

lemma slice_len_agree:
  "agree_on b b' start (start + len) \<Longrightarrow> slice_len b' start len = slice_len b start len"
  by (auto simp: agree_on_def slice_len_def intro!: nth_equalityI)

lemma slice_range_agree:
  assumes "agree_on b b' lo hi"
  shows "slice_range b' lo hi = slice_range b lo hi"
proof (cases "lo \<le> hi \<and> hi \<le> length b")
  case False
  then show ?thesis using assms by (auto simp: agree_on_def slice_range_def)
next
  case True
  have "take (hi - lo) (drop lo b') = take (hi - lo) (drop lo b)"
  proof (rule nth_equalityI)
    show "length (take (hi - lo) (drop lo b')) = length (take (hi - lo) (drop lo b))"
      using assms by (simp add: agree_on_def)
    fix i assume "i < length (take (hi - lo) (drop lo b'))"
    then have "lo + i < hi" "lo + i < length b" using True assms by (auto simp: agree_on_def)
    then have "b' ! (lo + i) = b ! (lo + i)" using assms by (simp add: agree_on_def)
    then show "take (hi - lo) (drop lo b') ! i = take (hi - lo) (drop lo b) ! i"
      using \<open>lo + i < hi\<close> \<open>lo + i < length b\<close> assms by (simp add: agree_on_def)
  qed
  then show ?thesis using assms by (simp add: agree_on_def slice_range_def)
qed

lemma u16_roundtrip:
  "ucast (ucast v :: byte) OR push_bit 8 (ucast (ucast (drop_bit 8 v) :: byte)) = v"
  for v :: uint16
  by (rule bit_word_eqI) (auto simp: bit_simps)

lemma PutUint16_result:
  assumes "pos + 2 \<le> length b"
  obtains b' where "PutUint16 b pos v = Inr b'" and "unchanged_outside b b' pos (pos + 2)"
    and "Uint16 b' pos = Inr v"
proof
  let ?b' = "b[pos := ucast v, pos + 1 := ucast (drop_bit 8 v)]"
  show "PutUint16 b pos v = Inr ?b'" using assms by (simp add: PutUint16_def)
  show "unchanged_outside b ?b' pos (pos + 2)"
    by (auto simp: unchanged_outside_def nth_list_update)
  show "Uint16 ?b' pos = Inr v"
    using assms by (simp add: Uint16_def nth_list_update u16_roundtrip)
qed

lemma copy_at_result:
  assumes "pos + length src \<le> length b"
  obtains b' where "copy_at b pos src = Inr b'" and "unchanged_outside b b' pos (pos + length src)"
    and "slice_len b' pos (length src) = Inr src"
proof
  let ?b' = "take pos b @ src @ drop (pos + length src) b"
  have m: "min (length b - pos) (length src) = length src" using assms by simp
  show "copy_at b pos src = Inr ?b'" using assms by (simp add: copy_at_def m)
  show "unchanged_outside b ?b' pos (pos + length src)"
    using assms by (auto simp: unchanged_outside_def nth_append)
  show "slice_len ?b' pos (length src) = Inr src"
    using assms by (simp add: slice_len_def)
qed

text \<open>\<^verbatim>\<open>copy\<close> into a slice that may be too short: only the bytes that fit are copied.\<close>

lemma copy_at_result_room:
  assumes "pos \<le> length b"
  obtains b' where "copy_at b pos src = Inr b'"
    and "unchanged_outside b b' pos (pos + min (length b - pos) (length src))"
    and "slice_len b' pos (min (length b - pos) (length src))
           = Inr (take (min (length b - pos) (length src)) src)"
proof
  let ?k = "min (length b - pos) (length src)"
  let ?b' = "take pos b @ take ?k src @ drop (pos + ?k) b"
  show "copy_at b pos src = Inr ?b'" using assms by (simp add: copy_at_def Let_def)
  show "unchanged_outside b ?b' pos (pos + ?k)"
    using assms by (auto simp: unchanged_outside_def nth_append)
  show "slice_len ?b' pos ?k = Inr (take ?k src)"
    using assms by (simp add: slice_len_def)
qed

lemma u64_roundtrip:
  "ucast (ucast v :: byte) OR push_bit 8 (ucast (ucast (drop_bit 8 v) :: byte))
   OR push_bit 16 (ucast (ucast (drop_bit 16 v) :: byte))
   OR push_bit 24 (ucast (ucast (drop_bit 24 v) :: byte))
   OR push_bit 32 (ucast (ucast (drop_bit 32 v) :: byte))
   OR push_bit 40 (ucast (ucast (drop_bit 40 v) :: byte))
   OR push_bit 48 (ucast (ucast (drop_bit 48 v) :: byte))
   OR push_bit 56 (ucast (ucast (drop_bit 56 v) :: byte)) = v"
  (is "?lhs = v") for v :: uint64
proof (rule bit_word_eqI)
  fix n assume "n < LENGTH(64)"
  then have n: "n < 64" by simp
  then consider "n < 8" | "8 \<le> n" "n < 16" | "16 \<le> n" "n < 24" | "24 \<le> n" "n < 32"
    | "32 \<le> n" "n < 40" | "40 \<le> n" "n < 48" | "48 \<le> n" "n < 56" | "56 \<le> n" "n < 64"
    by linarith
  then show "bit ?lhs n = bit v n"
    by cases (simp_all add: bit_simps less_diff_conv2)
qed

lemma PutUint64_result:
  assumes "pos + 8 \<le> length b"
  obtains b' where "PutUint64 b pos v = Inr b'" and "unchanged_outside b b' pos (pos + 8)"
    and "Uint64 b' pos = Inr v"
proof
  let ?b' = "b[pos := ucast v, pos + 1 := ucast (drop_bit 8 v),
                  pos + 2 := ucast (drop_bit 16 v), pos + 3 := ucast (drop_bit 24 v),
                  pos + 4 := ucast (drop_bit 32 v), pos + 5 := ucast (drop_bit 40 v),
                  pos + 6 := ucast (drop_bit 48 v), pos + 7 := ucast (drop_bit 56 v)]"
  show "PutUint64 b pos v = Inr ?b'" using assms by (simp add: PutUint64_def)
  show "unchanged_outside b ?b' pos (pos + 8)"
    by (auto simp: unchanged_outside_def nth_list_update)
  show "Uint64 ?b' pos = Inr v"
    using assms by (simp add: Uint64_def nth_list_update u64_roundtrip)
qed

text \<open>Positions computed in \<^verbatim>\<open>uint16\<close> agree with the natural numbers while nothing wraps.\<close>

lemma unat_add16: "unat a + unat b < 65536 \<Longrightarrow> unat (a + b) = unat a + unat b"
  for a b :: uint16
  by (simp add: unat_add_lem [THEN iffD1])

lemma unat_mult16: "unat a * unat b < 65536 \<Longrightarrow> unat (a * b) = unat a * unat b"
  for a b :: uint16
  by (simp add: unat_mult_lem [THEN iffD1])

lemma unat_ptr_pos:
  "4 + 8 * unat idx < 65536 \<Longrightarrow> unat (HEADER + 8 * idx) = 4 + 8 * unat idx"
  by (simp add: HEADER_def unat_add16 unat_mult16)

lemma unat_offset_pos:
  assumes "4 + 8 * unat nk + 2 * unat idx < 65536" and "idx \<noteq> 0"
  shows "unat (HEADER + 8 * nk + 2 * (idx - 1)) = 4 + 8 * unat nk + 2 * (unat idx - 1)"
proof -
  have a: "unat (idx - 1) = unat idx - 1" using assms(2) by (rule unat_minus_one)
  have m2: "unat (2 * (idx - 1)) = 2 * (unat idx - 1)"
    using unat_mult16 [of 2 "idx - 1"] a assms(1) by simp
  have m8: "unat (8 * nk) = 8 * unat nk"
    using unat_mult16 [of 8 nk] assms(1) by simp
  have s1: "unat (4 + 8 * nk) = 4 + 8 * unat nk"
    using unat_add16 [of 4 "8 * nk"] m8 assms(1) by simp
  have "unat (4 + 8 * nk + 2 * (idx - 1)) = 4 + 8 * unat nk + 2 * (unat idx - 1)"
    using unat_add16 [of "4 + 8 * nk" "2 * (idx - 1)"] s1 m2 assms(1) by simp
  then show ?thesis by (simp add: HEADER_def)
qed

lemma unat_kv_pos:
  "4 + 10 * unat nk + unat off < 65536
    \<Longrightarrow> unat (HEADER + 8 * nk + 2 * nk + off) = 4 + 10 * unat nk + unat off"
  by (simp add: HEADER_def unat_add16 unat_mult16)

section \<open>The codec on a node that fits its buffer\<close>

lemma node_fits_NKeys: "node_fits m n nk \<Longrightarrow> NKeys m n = Inr nk"
  by (simp add: node_fits_def)

lemma node_fits_update:
  "node_fits m n nk \<Longrightarrow> agree_on (m (Data n)) b' 2 4 \<Longrightarrow> node_fits (m(Data n := b')) n nk"
  using Uint16_agree [of "m (Data n)" b' 2]
  by (simp add: node_fits_def NKeys_def agree_on_def)

lemma word_lt_unat: "a < b \<Longrightarrow> unat a < unat b" for a b :: uint16
  by (simp add: word_less_nat_alt)

lemma word_le_unat: "a \<le> b \<Longrightarrow> unat a \<le> unat b" for a b :: uint16
  by (simp add: word_le_nat_alt)

lemma GetPtr_fits:
  assumes "node_fits m n nk" and "idx < nk"
  shows "GetPtr m n idx = Uint64 (m (Data n)) (4 + 8 * unat idx)"
proof -
  have "4 + 8 * unat idx < 65536"
    using assms word_lt_unat [OF assms(2)] by (simp add: node_fits_def)
  then show ?thesis
    using assms by (simp add: GetPtr_def node_fits_def unat_ptr_pos)
qed

lemma SetPtr_fits:
  assumes "node_fits m n nk" and "idx < nk"
  shows "SetPtr m n idx v =
    thn (PutUint64 (m (Data n)) (4 + 8 * unat idx) v) (\<lambda>b. Inr (m(Data n := b)))"
proof -
  have "4 + 8 * unat idx < 65536"
    using assms word_lt_unat [OF assms(2)] by (simp add: node_fits_def)
  then show ?thesis
    using assms by (simp add: SetPtr_def node_fits_def unat_ptr_pos)
qed

lemma OffsetPos_fits:
  assumes "node_fits m n nk" and "idx \<noteq> 0" and "idx \<le> nk"
  shows "\<exists>p. OffsetPos m n idx = Inr p \<and> unat p = 4 + 8 * unat nk + 2 * (unat idx - 1)"
proof -
  have "4 + 8 * unat nk + 2 * unat idx < 65536"
    using assms word_le_unat [OF assms(3)] by (simp add: node_fits_def)
  then have "unat (HEADER + 8 * nk + 2 * (idx - 1)) = 4 + 8 * unat nk + 2 * (unat idx - 1)"
    using assms(2) by (rule unat_offset_pos)
  moreover have "1 \<le> idx" using assms(2) by (simp add: word_le_nat_alt unat_gt_0 Suc_le_eq)
  ultimately show ?thesis
    using assms by (simp add: OffsetPos_def node_fits_def)
qed

lemma GetOffset_fits:
  assumes "node_fits m n nk" and "idx \<noteq> 0" and "idx \<le> nk"
  shows "GetOffset m n idx = Uint16 (m (Data n)) (4 + 8 * unat nk + 2 * (unat idx - 1))"
  using OffsetPos_fits [OF assms] assms(2) by (auto simp: GetOffset_def)

lemma SetOffset_fits:
  assumes "node_fits m n nk" and "idx \<noteq> 0" and "idx \<le> nk"
  shows "SetOffset m n idx v =
    thn (PutUint16 (m (Data n)) (4 + 8 * unat nk + 2 * (unat idx - 1)) v)
      (\<lambda>b. Inr (m(Data n := b)))"
  using OffsetPos_fits [OF assms] by (auto simp: SetOffset_def)

lemma KVPos_fits:
  assumes "node_fits m n nk" and "idx \<le> nk"
  shows "KVPos m n idx = thn (GetOffset m n idx) (\<lambda>off. Inr (HEADER + 10 * nk + off))"
  using assms by (simp add: KVPos_def node_fits_def HEADER_def thn_def split: sum.splits)

text \<open>Offsets survive a write that leaves the header and the offset table alone.\<close>

lemma GetOffset_update:
  assumes "node_fits m n nk" and "idx \<le> nk"
    and "agree_on (m (Data n)) b' 2 4"
    and "agree_on (m (Data n)) b' (4 + 8 * unat nk) (4 + 10 * unat nk)"
  shows "GetOffset (m(Data n := b')) n idx = GetOffset m n idx"
proof (cases "idx = 0")
  case True
  then show ?thesis by (simp add: GetOffset_def)
next
  case False
  have f': "node_fits (m(Data n := b')) n nk"
    using assms(1,3) by (rule node_fits_update)
  have "0 < unat idx" using False by (simp add: unat_gt_0)
  then have "agree_on (m (Data n)) b' (4 + 8 * unat nk + 2 * (unat idx - 1))
      (4 + 8 * unat nk + 2 * (unat idx - 1) + 2)"
    using assms(4) word_le_unat [OF assms(2)] by (auto elim!: agree_on_sub)
  then show ?thesis
    using GetOffset_fits [OF f' False assms(2)] GetOffset_fits [OF assms(1) False assms(2)]
    by (simp add: Uint16_agree)
qed

lemma GetPtr_update:
  assumes "node_fits m n nk" and "idx < nk"
    and "agree_on (m (Data n)) b' 2 4"
    and "agree_on (m (Data n)) b' (4 + 8 * unat idx) (4 + 8 * unat idx + 8)"
  shows "GetPtr (m(Data n := b')) n idx = GetPtr m n idx"
  using GetPtr_fits [OF node_fits_update [OF assms(1,3)] assms(2)] GetPtr_fits [OF assms(1,2)]
    Uint64_agree [OF assms(4)] by simp

lemma node_fits_cong: "m' (Data n) = m (Data n) \<Longrightarrow> node_fits m' n nk = node_fits m n nk"
  by (simp add: node_fits_def NKeys_def)

lemma Uint64_in_range: "pos + 8 \<le> length b \<Longrightarrow> \<exists>p. Uint64 b pos = Inr p"
  by (simp add: Uint64_def)

lemma Uint16_in_range: "pos + 2 \<le> length b \<Longrightarrow> \<exists>p. Uint16 b pos = Inr p"
  by (simp add: Uint16_def)

lemma unat_add_nat16: "unat a + k < 65536 \<Longrightarrow> unat (a + of_nat k) = unat a + k" for a :: uint16
  using unat_add16 [of a "of_nat k"] by (simp add: unat_of_nat)

lemma node_fits_agree:
  "node_fits m n nk \<Longrightarrow> agree_on (m (Data n)) (m' (Data n)) 2 4 \<Longrightarrow> node_fits m' n nk"
  using Uint16_agree [of "m (Data n)" "m' (Data n)" 2]
  by (simp add: node_fits_def NKeys_def agree_on_def)

lemma GetOffset_agree:
  assumes "node_fits m n nk" and "idx \<le> nk"
    and "agree_on (m (Data n)) (m' (Data n)) 2 4"
    and "idx \<noteq> 0 \<Longrightarrow> agree_on (m (Data n)) (m' (Data n))
           (4 + 8 * unat nk + 2 * (unat idx - 1)) (4 + 8 * unat nk + 2 * (unat idx - 1) + 2)"
  shows "GetOffset m' n idx = GetOffset m n idx"
proof (cases "idx = 0")
  case True
  then show ?thesis by (simp add: GetOffset_def)
next
  case False
  have f': "node_fits m' n nk"
    using assms(1,3) by (rule node_fits_agree)
  show ?thesis
    using GetOffset_fits [OF f' False assms(2)] GetOffset_fits [OF assms(1) False assms(2)]
      Uint16_agree [OF assms(4) [OF False]] by simp
qed

lemma GetOffset_cong: "m' (Data n) = m (Data n) \<Longrightarrow> GetOffset m' n idx = GetOffset m n idx"
  by (simp add: GetOffset_def OffsetPos_def NKeys_def)

lemma GetPtr_cong: "m' (Data n) = m (Data n) \<Longrightarrow> GetPtr m' n idx = GetPtr m n idx"
  by (simp add: GetPtr_def NKeys_def)

lemma KVPos_cong: "m' (Data n) = m (Data n) \<Longrightarrow> KVPos m' n idx = KVPos m n idx"
  using GetOffset_cong [of m' n m idx] by (simp add: KVPos_def NKeys_def)

lemma unat_kv_pos10:
  assumes "4 + 10 * unat nk + unat off < 65536"
  shows "unat (HEADER + 10 * nk + off) = 4 + 10 * unat nk + unat off"
proof -
  have e: "HEADER + 10 * nk + off = HEADER + 8 * nk + 2 * nk + off" by simp
  show ?thesis unfolding e using assms by (rule unat_kv_pos)
qed

lemma agree_chain3:
  "unchanged_outside a b l1 h1 \<Longrightarrow> unchanged_outside b c l2 h2 \<Longrightarrow> unchanged_outside c d l3 h3
    \<Longrightarrow> y \<le> l1 \<or> h1 \<le> x \<Longrightarrow> y \<le> l2 \<or> h2 \<le> x \<Longrightarrow> y \<le> l3 \<or> h3 \<le> x
    \<Longrightarrow> agree_on a d x y"
  by (blast intro: agree_on_trans unchanged_agree)

lemma agree_chain2:
  "unchanged_outside a b l1 h1 \<Longrightarrow> unchanged_outside b c l2 h2
    \<Longrightarrow> y \<le> l1 \<or> h1 \<le> x \<Longrightarrow> y \<le> l2 \<or> h2 \<le> x \<Longrightarrow> agree_on a c x y"
  by (blast intro: agree_on_trans unchanged_agree)

lemma unat_of_nat16: "k < 65536 \<Longrightarrow> unat (of_nat k :: uint16) = k"
  by (simp add: unat_of_nat)

section \<open>What \<^verbatim>\<open>SetHeader\<close> does to any node\<close>

text \<open>
  Whenever \<^verbatim>\<open>SetHeader\<close> returns, the type field reads back as the key count that was
  passed, and the key count field is what it was before the call.
\<close>

lemma SetHeader_effect:
  assumes "SetHeader m n btype nkeys = Inr m'"
  shows "BType m' n = Inr nkeys \<and> NKeys m' n = NKeys m n"
proof -
  define b where "b = m (Data n)"
  have len: "2 \<le> length b"
    using assms by (auto simp: SetHeader_def PutUint16_def b_def thn_eq_Inr split: if_splits)
  obtain b1 where p1: "PutUint16 b 0 btype = Inr b1"
    and u1: "unchanged_outside b b1 0 (0 + 2)"
    using PutUint16_result [of 0 b btype] len by auto
  have len1: "0 + 2 \<le> length b1"
    using len unchanged_outside_length [OF u1] by simp
  obtain b2 where p2: "PutUint16 b1 0 nkeys = Inr b2"
    and u2: "unchanged_outside b1 b2 0 (0 + 2)"
    and r2: "Uint16 b2 0 = Inr nkeys"
    using PutUint16_result [OF len1, of nkeys] by auto
  have m': "m' = m(Data n := b2)"
    using assms p1 p2 by (simp add: SetHeader_def b_def)
  have "agree_on b b2 2 (2 + 2)"
    using u1 u2 by (rule agree_chain2) simp_all
  then have "Uint16 b2 2 = Uint16 b 2" by (rule Uint16_agree)
  then show ?thesis
    using r2 by (simp add: m' BType_def NKeys_def b_def)
qed

section \<open>\<^verbatim>\<open>NodeAppendKV\<close>\<close>

text \<open>
  C7. Let slot \<open>idx\<close> be below the key count \<open>nk\<close> of the destination, \<open>off\<close> its
  offset, and let the record fit: \<open>4 + 10 * nk + off + 4 + |key| + |val|\<close> is at most the
  length of the buffer, itself at most 65535. Then \<^verbatim>\<open>NodeAppendKV\<close> returns, and in the
  node it leaves: the pointer of slot \<open>idx\<close> is \<open>ptr\<close>; at \<^verbatim>\<open>KVPos(idx)\<close>, which is
  still \<open>HEADER + 10 * nk + off\<close>, stand the two lengths, then the key bytes, then the
  value bytes, so that \<^verbatim>\<open>GetKey(idx)\<close> and \<^verbatim>\<open>GetVal(idx)\<close> return them; and the
  offset of slot \<open>idx + 1\<close> is \<open>off + 4 + |key| + |val|\<close>.
\<close>

theorem NodeAppendKV_post:
  assumes nk: "NKeys m new = Inr nk"
    and idx: "idx < nk"
    and off: "GetOffset m new idx = Inr off"
    and cap: "4 + 10 * unat nk + unat off + 4 + length key + length val \<le> length (m (Data new))"
    and len: "length (m (Data new)) \<le> 65535"
  shows "\<exists>m'. NodeAppendKV m new idx ptr key val = Inr m'
     \<and> NKeys m' new = Inr nk
     \<and> GetPtr m' new idx = Inr ptr
     \<and> KVPos m' new idx = Inr (HEADER + 10 * nk + off)
     \<and> Uint16 (m' (Data new)) (unat (HEADER + 10 * nk + off)) = Inr (of_nat (length key))
     \<and> Uint16 (m' (Data new)) (unat (HEADER + 10 * nk + off) + 2) = Inr (of_nat (length val))
     \<and> slice_len (m' (Data new)) (unat (HEADER + 10 * nk + off) + 4) (length key) = Inr key
     \<and> slice_len (m' (Data new)) (unat (HEADER + 10 * nk + off) + 4 + length key) (length val)
         = Inr val
     \<and> GetKey m' new idx = Inr key
     \<and> GetVal m' new idx = Inr val
     \<and> GetOffset m' new idx = Inr off
     \<and> GetOffset m' new (idx + 1) = Inr (off + 4 + of_nat (length key) + of_nat (length val))"
proof -
  define b0 where "b0 = m (Data new)"
  define K where "K = unat nk"
  define I where "I = unat idx"
  define P where "P = 4 + 10 * K + unat off"
  define pos where "pos = HEADER + 10 * nk + off"
  define kl where "kl = length key"
  define vl where "vl = length val"
  define v where "v = off + 4 + of_nat (length key + length val)"
  have IK: "I < K" using idx by (simp add: I_def K_def word_less_nat_alt)
  have capP: "P + 4 + kl + vl \<le> length b0" and lenb: "length b0 \<le> 65535"
    using cap len by (simp_all add: P_def K_def b0_def kl_def vl_def)
  have fits0: "node_fits m new nk"
    using nk cap len by (simp add: node_fits_def)
  have idx_le: "idx \<le> nk" using idx by simp
  have pos_alt: "HEADER + 8 * nk + 2 * nk + off = pos"
    by (simp add: pos_def)
  have upos: "unat pos = P"
  proof -
    have "4 + 10 * unat nk + unat off < 65536"
      using capP lenb by (simp add: P_def K_def)
    then have "unat (HEADER + 8 * nk + 2 * nk + off) = 4 + 10 * unat nk + unat off"
      by (rule unat_kv_pos)
    then show ?thesis unfolding pos_alt by (simp add: P_def K_def)
  qed
  have upos2: "unat (pos + 2) = P + 2"
    using unat_add16 [of pos 2] upos capP lenb by simp
  have upos4: "unat (pos + 4) = P + 4"
    using unat_add16 [of pos 4] upos capP lenb by simp
  have ukl: "unat (of_nat kl :: uint16) = kl" and uvl: "unat (of_nat vl :: uint16) = vl"
    using capP lenb by (simp_all add: unat_of_nat16)
  have upos4k: "unat (pos + 4 + of_nat kl) = P + 4 + kl"
    using unat_add16 [of "pos + 4" "of_nat kl"] upos4 ukl capP lenb by simp
  \<comment> \<open>the pointer\<close>
  obtain b1 where p1: "PutUint64 b0 (4 + 8 * I) ptr = Inr b1"
    and u1: "unchanged_outside b0 b1 (4 + 8 * I) (4 + 8 * I + 8)"
    and r1: "Uint64 b1 (4 + 8 * I) = Inr ptr"
    using IK capP by (auto simp: P_def intro: PutUint64_result [of "4 + 8 * I" b0 ptr])
  define m1 where "m1 = m(Data new := b1)"
  have s1: "SetPtr m new idx ptr = Inr m1"
    using SetPtr_fits [OF fits0 idx] p1 by (simp add: b0_def I_def m1_def)
  have a01_hdr: "agree_on b0 b1 2 4"
    using u1 by (rule unchanged_agree) simp
  have a01_off: "agree_on b0 b1 (4 + 8 * K) (4 + 10 * K)"
    using u1 by (rule unchanged_agree) (use IK in simp)
  have fits1: "node_fits m1 new nk"
    unfolding m1_def using fits0 a01_hdr [unfolded b0_def] by (rule node_fits_update)
  have off1: "GetOffset m1 new idx = Inr off"
    unfolding m1_def
    using GetOffset_update [OF fits0 idx_le a01_hdr [unfolded b0_def] a01_off [unfolded b0_def K_def]]
      off by simp
  have kv1: "KVPos m1 new idx = Inr pos"
    using KVPos_fits [OF fits1 idx_le] off1 by (simp add: pos_def)
  have m1b: "m1 (Data new) = b1" by (simp add: m1_def)
  \<comment> \<open>the record\<close>
  obtain b2 where p2: "PutUint16 b1 P (of_nat kl) = Inr b2"
    and u2: "unchanged_outside b1 b2 P (P + 2)"
    and r2: "Uint16 b2 P = Inr (of_nat kl)"
    using capP unchanged_outside_length [OF u1]
    by (auto intro: PutUint16_result [of P b1 "of_nat kl"])
  obtain b3 where p3: "PutUint16 b2 (P + 2) (of_nat vl) = Inr b3"
    and u3: "unchanged_outside b2 b3 (P + 2) (P + 2 + 2)"
    and r3: "Uint16 b3 (P + 2) = Inr (of_nat vl)"
    using capP unchanged_outside_length [OF u1] unchanged_outside_length [OF u2]
    by (auto intro: PutUint16_result [of "P + 2" b2 "of_nat vl"])
  obtain b4 where p4: "copy_at b3 (P + 4) key = Inr b4"
    and u4: "unchanged_outside b3 b4 (P + 4) (P + 4 + kl)"
    and r4: "slice_len b4 (P + 4) kl = Inr key"
    using capP unchanged_outside_length [OF u1] unchanged_outside_length [OF u2]
      unchanged_outside_length [OF u3]
    by (auto simp: kl_def intro: copy_at_result [of "P + 4" key b3])
  obtain b5 where p5: "copy_at b4 (P + 4 + kl) val = Inr b5"
    and u5: "unchanged_outside b4 b5 (P + 4 + kl) (P + 4 + kl + vl)"
    and r5: "slice_len b5 (P + 4 + kl) vl = Inr val"
    using capP unchanged_outside_length [OF u1] unchanged_outside_length [OF u2]
      unchanged_outside_length [OF u3] unchanged_outside_length [OF u4]
    by (auto simp: vl_def intro: copy_at_result [of "P + 4 + kl" val b4])
  have u15: "unchanged_outside b1 b5 P (P + 4 + kl + vl)"
  proof -
    have "unchanged_outside b1 b3 P (P + 4)"
      using u2 u3 by (rule unchanged_outside_trans) simp_all
    then have "unchanged_outside b1 b4 P (P + 4 + kl)"
      using u4 by (rule unchanged_outside_trans) simp_all
    then show ?thesis
      using u5 by (rule unchanged_outside_trans) simp_all
  qed
  define m5 where "m5 = m1(Data new := b5)"
  have PK: "4 + 10 * K \<le> P" by (simp add: P_def)
  have a15_hdr: "agree_on b1 b5 2 4"
    using u15 by (rule unchanged_agree) (use PK in simp)
  have a15_off: "agree_on b1 b5 (4 + 8 * K) (4 + 10 * K)"
    using u15 by (rule unchanged_agree) (use PK in simp)
  have fits5: "node_fits m5 new nk"
    unfolding m5_def using fits1 a15_hdr [folded m1b] by (rule node_fits_update)
  have off5: "GetOffset m5 new idx = Inr off"
    unfolding m5_def
    using GetOffset_update [OF fits1 idx_le a15_hdr [folded m1b]] a15_off off1
    by (simp add: m1b K_def)
  \<comment> \<open>the offset of the next record\<close>
  have i1: "idx + 1 \<noteq> 0" "idx + 1 \<le> nk" "unat (idx + 1) = I + 1"
    using idx unat_inc [OF idx] by (simp_all add: inc_le I_def flip: unat_eq_0)
  obtain b6 where p6: "PutUint16 b5 (4 + 8 * K + 2 * I) v = Inr b6"
    and u6: "unchanged_outside b5 b6 (4 + 8 * K + 2 * I) (4 + 8 * K + 2 * I + 2)"
    and r6: "Uint16 b6 (4 + 8 * K + 2 * I) = Inr v"
    using capP IK unchanged_outside_length [OF u1] unchanged_outside_length [OF u15]
    by (auto simp: P_def intro: PutUint16_result [of "4 + 8 * K + 2 * I" b5 v])
  define m' where "m' = m5(Data new := b6)"
  have s6: "SetOffset m5 new (idx + 1) v = Inr m'"
    using SetOffset_fits [OF fits5 i1(1,2)] p6 i1(3) by (simp add: m5_def m'_def K_def)
  have run: "NodeAppendKV m new idx ptr key val = Inr m'"
    using s1 kv1 p2 p3 p4 p5 off5 s6 upos upos2 upos4 upos4k
    by (simp add: NodeAppendKV_def m1b m5_def [symmetric] v_def kl_def vl_def)
  \<comment> \<open>reading the node back\<close>
  have m'b: "m' (Data new) = b6" and m5b: "m5 (Data new) = b5"
    by (simp_all add: m'_def m5_def)
  have a56_hdr: "agree_on b5 b6 2 4"
    using u6 by (rule unchanged_agree) simp
  have fits': "node_fits m' new nk"
    unfolding m'_def using fits5 a56_hdr [folded m5b] by (rule node_fits_update)
  have nk': "NKeys m' new = Inr nk"
    using fits' by (rule node_fits_NKeys)
  have "agree_on b1 b6 (4 + 8 * I) (4 + 8 * I + 8)"
    using u15 u6 by (rule agree_chain2) (use IK PK in simp_all)
  then have ptr': "GetPtr m' new idx = Inr ptr"
    using GetPtr_fits [OF fits' idx] r1 by (simp add: m'b I_def Uint64_agree)
  have off': "GetOffset m' new idx = Inr off"
  proof (cases "idx = 0")
    case True
    then show ?thesis using off by (simp add: GetOffset_def)
  next
    case False
    then have I0: "0 < I" by (simp add: I_def unat_gt_0)
    have "agree_on b5 b6 (4 + 8 * K + 2 * (I - 1)) (4 + 8 * K + 2 * (I - 1) + 2)"
      using u6 by (rule unchanged_agree) (use I0 in arith)
    then show ?thesis
      using GetOffset_fits [OF fits' False idx_le] GetOffset_fits [OF fits5 False idx_le] off5
      by (simp add: m'b m5b I_def K_def Uint16_agree)
  qed
  have kv': "KVPos m' new idx = Inr pos"
    using KVPos_fits [OF fits' idx_le] off' by (simp add: pos_def)
  have off1': "GetOffset m' new (idx + 1) = Inr v"
    using GetOffset_fits [OF fits' i1(1,2)] r6 i1(3) by (simp add: m'b K_def)
  have lo6: "4 + 8 * K + 2 * I + 2 \<le> P" using IK by (simp add: P_def)
  have "agree_on b2 b5 P (P + 2)"
  proof -
    have "unchanged_outside b2 b4 (P + 2) (P + 4 + kl)"
      using u3 u4 by (rule unchanged_outside_trans) simp_all
    then have "unchanged_outside b2 b5 (P + 2) (P + 4 + kl + vl)"
      using u5 by (rule unchanged_outside_trans) simp_all
    then show ?thesis by (rule unchanged_agree) simp
  qed
  moreover have "agree_on b5 b6 P (P + 2)"
    using u6 by (rule unchanged_agree) (use lo6 in simp)
  ultimately have "agree_on b2 b6 P (P + 2)" by (rule agree_on_trans)
  then have klen': "Uint16 b6 P = Inr (of_nat kl)"
    using r2 by (simp add: Uint16_agree)
  have "agree_on b3 b5 (P + 2) (P + 2 + 2)"
    using u4 u5 by (rule agree_chain2) simp_all
  moreover have "agree_on b5 b6 (P + 2) (P + 2 + 2)"
    using u6 by (rule unchanged_agree) (use lo6 in simp)
  ultimately have "agree_on b3 b6 (P + 2) (P + 2 + 2)" by (rule agree_on_trans)
  then have vlen': "Uint16 b6 (P + 2) = Inr (of_nat vl)"
    using r3 by (simp add: Uint16_agree)
  have "agree_on b4 b6 (P + 4) (P + 4 + kl)"
    using u5 u6 by (rule agree_chain2) (use lo6 in simp_all)
  then have key': "slice_len b6 (P + 4) kl = Inr key"
    using r4 by (simp add: slice_len_agree)
  have "agree_on b5 b6 (P + 4 + kl) (P + 4 + kl + vl)"
    using u6 by (rule unchanged_agree) (use lo6 in simp)
  then have val': "slice_len b6 (P + 4 + kl) vl = Inr val"
    using r5 by (simp add: slice_len_agree)
  have gk: "GetKey m' new idx = Inr key"
    using nk' idx_le kv' klen' key' upos upos4 ukl by (simp add: GetKey_def m'b)
  have gv: "GetVal m' new idx = Inr val"
    using nk' idx_le kv' klen' vlen' val' upos upos2 upos4k uvl by (simp add: GetVal_def m'b)
  have v_alt: "v = off + 4 + of_nat (length key) + of_nat (length val)"
    by (simp add: v_def)
  show ?thesis
    using run nk' ptr' kv' klen' vlen' key' val' gk gv off' off1' upos v_alt
    by (simp add: m'b pos_def [symmetric] kl_def [symmetric] vl_def [symmetric])
qed

theorem NodeAppendKV_post_witness:
  "NKeys mem_two \<lparr>Data = 0\<rparr> = Inr 1 \<and> (0 :: uint16) < 1
   \<and> GetOffset mem_two \<lparr>Data = 0\<rparr> 0 = Inr 0 \<and> length (mem_two 0) = 32
   \<and> thn (NodeAppendKV mem_two \<lparr>Data = 0\<rparr> 0 7 [97] [49]) (\<lambda>m'. GetKey m' \<lparr>Data = 0\<rparr> 0) = Inr [97]
   \<and> thn (NodeAppendKV mem_two \<lparr>Data = 0\<rparr> 0 7 [97] [49]) (\<lambda>m'. GetVal m' \<lparr>Data = 0\<rparr> 0) = Inr [49]
   \<and> thn (NodeAppendKV mem_two \<lparr>Data = 0\<rparr> 0 7 [97] [49]) (\<lambda>m'. GetPtr m' \<lparr>Data = 0\<rparr> 0) = Inr 7
   \<and> thn (NodeAppendKV mem_two \<lparr>Data = 0\<rparr> 0 7 [97] [49]) (\<lambda>m'. GetOffset m' \<lparr>Data = 0\<rparr> 1) = Inr 6"
proof -
  let ?new = "\<lparr>Data = 0\<rparr>"
  have nk: "NKeys mem_two ?new = Inr 1"
    by (simp add: NKeys_def Uint16_def mem_two_def page_count1_def)
  have idx: "(0 :: uint16) < 1" by simp
  have off: "GetOffset mem_two ?new 0 = Inr 0" by (simp add: GetOffset_def)
  have len: "length (mem_two 0) = 32" by (simp add: mem_two_def page_count1_def)
  have cap: "4 + 10 * unat (1 :: uint16) + unat (0 :: uint16) + 4 + length [97 :: byte]
      + length [49 :: byte] \<le> length (mem_two (Data ?new))"
    and len': "length (mem_two (Data ?new)) \<le> 65535"
    using len by simp_all
  obtain m' where "NodeAppendKV mem_two ?new 0 7 [97] [49] = Inr m'"
    and "GetPtr m' ?new 0 = Inr 7" and "GetKey m' ?new 0 = Inr [97]"
    and "GetVal m' ?new 0 = Inr [49]"
    and "GetOffset m' ?new (0 + 1) = Inr (0 + 4 + of_nat (length [97 :: byte]) + of_nat (length [49 :: byte]))"
    using NodeAppendKV_post [OF nk idx off cap len', of 7] by blast
  then show ?thesis using nk off len by simp
qed

section \<open>\<^verbatim>\<open>NodeAppendRange\<close>\<close>

lemma NodeAppendRange_ptrs_post:
  shows "Data new \<noteq> Data old \<Longrightarrow> unat srcOld + unat n \<le> unat onk
    \<Longrightarrow> unat dstNew + unat n \<le> unat nnk
    \<Longrightarrow> node_fits m new nnk \<Longrightarrow> node_fits m old onk \<Longrightarrow> i \<le> n
    \<Longrightarrow> \<exists>m'. NodeAppendRange_ptrs m new old dstNew srcOld n i = Inr m'
          \<and> unchanged_outside (m (Data new)) (m' (Data new))
                (4 + 8 * (unat dstNew + unat i)) (4 + 8 * (unat dstNew + unat n))
          \<and> (\<forall>j. unat i \<le> j \<and> j < unat n \<longrightarrow>
                Uint64 (m' (Data new)) (4 + 8 * (unat dstNew + j))
                = Uint64 (m (Data old)) (4 + 8 * (unat srcOld + j)))"
proof (induction m new old dstNew srcOld n i rule: NodeAppendRange_ptrs.induct)
  case (1 m new old dstNew srcOld n i)
  note distinct = "1.prems"(1) and src = "1.prems"(2) and dst = "1.prems"(3)
    and fn = "1.prems"(4) and fo = "1.prems"(5) and le = "1.prems"(6)
  define bn where "bn = m (Data new)"
  define bo where "bo = m (Data old)"
  define S D N J where "S = unat srcOld" and "D = unat dstNew" and "N = unat n" and "J = unat i"
  have SN: "S + N \<le> unat onk" and DN: "D + N \<le> unat nnk"
    using src dst by (simp_all add: S_def D_def N_def)
  have Lo: "4 + 10 * unat onk \<le> length bo" "length bo \<le> 65535"
    and Ln: "4 + 10 * unat nnk \<le> length bn" "length bn \<le> 65535"
    using fn fo by (simp_all add: node_fits_def bn_def bo_def)
  show ?case
  proof (cases "i < n")
    case False
    then have "i = n" using le by simp
    then show ?thesis
      by (auto simp: NodeAppendRange_ptrs.simps [of m])
  next
    case True
    then have JN: "J < N" by (simp add: J_def N_def word_less_nat_alt)
    have inc: "unat (i + 1) = J + 1" using unat_inc [OF True] by (simp add: J_def)
    have usi: "unat (srcOld + i) = S + J"
      using unat_add16 [of srcOld i] SN JN Lo by (simp add: S_def J_def)
    have udi: "unat (dstNew + i) = D + J"
      using unat_add16 [of dstNew i] DN JN Ln by (simp add: D_def J_def)
    have si: "srcOld + i < onk" using usi SN JN by (simp add: word_less_nat_alt)
    have di: "dstNew + i < nnk" using udi DN JN by (simp add: word_less_nat_alt)
    obtain p where p: "Uint64 bo (4 + 8 * (S + J)) = Inr p"
      using Uint64_in_range [of "4 + 8 * (S + J)" bo] SN JN Lo by auto
    have gp: "GetPtr m old (srcOld + i) = Inr p"
      using GetPtr_fits [OF fo si] p by (simp add: usi bo_def)
    obtain b1 where p1: "PutUint64 bn (4 + 8 * (D + J)) p = Inr b1"
      and u1: "unchanged_outside bn b1 (4 + 8 * (D + J)) (4 + 8 * (D + J) + 8)"
      and r1: "Uint64 b1 (4 + 8 * (D + J)) = Inr p"
      using DN JN Ln by (auto intro: PutUint64_result [of "4 + 8 * (D + J)" bn p])
    define m1 where "m1 = m(Data new := b1)"
    have sp: "SetPtr m new (dstNew + i) p = Inr m1"
      using SetPtr_fits [OF fn di] p1 by (simp add: udi bn_def m1_def)
    have m1n: "m1 (Data new) = b1" and m1o: "m1 (Data old) = bo"
      using distinct by (simp_all add: m1_def bo_def)
    have fn1: "node_fits m1 new nnk"
      unfolding m1_def using fn
    proof (rule node_fits_update)
      show "agree_on (m (Data new)) b1 2 4"
        using u1 [unfolded bn_def] by (rule unchanged_agree) simp
    qed
    have fo1: "node_fits m1 old onk"
      using fo node_fits_cong [of m1 old m onk] m1o by (simp add: bo_def)
    have le1: "i + 1 \<le> n" using True by (rule inc_le)
    obtain m' where run: "NodeAppendRange_ptrs m1 new old dstNew srcOld n (i + 1) = Inr m'"
      and u: "unchanged_outside b1 (m' (Data new)) (4 + 8 * (D + (J + 1))) (4 + 8 * (D + N))"
      and r: "\<forall>j. J + 1 \<le> j \<and> j < N \<longrightarrow>
                Uint64 (m' (Data new)) (4 + 8 * (D + j)) = Uint64 bo (4 + 8 * (S + j))"
      using "1.IH" [OF True gp sp distinct src dst fn1 fo1 le1]
      by (auto simp: m1n m1o inc D_def [symmetric] S_def [symmetric] N_def [symmetric])
    have run0: "NodeAppendRange_ptrs m new old dstNew srcOld n i = Inr m'"
      using True gp sp run by (simp add: NodeAppendRange_ptrs.simps [of m])
    have u0: "unchanged_outside bn (m' (Data new)) (4 + 8 * (D + J)) (4 + 8 * (D + N))"
      using u1 u by (rule unchanged_outside_trans) (use JN in simp_all)
    have "agree_on b1 (m' (Data new)) (4 + 8 * (D + J)) (4 + 8 * (D + J) + 8)"
      using u by (rule unchanged_agree) simp
    then have rJ: "Uint64 (m' (Data new)) (4 + 8 * (D + J)) = Uint64 bo (4 + 8 * (S + J))"
      using r1 p by (simp add: Uint64_agree)
    have "Uint64 (m' (Data new)) (4 + 8 * (D + j)) = Uint64 bo (4 + 8 * (S + j))"
      if "J \<le> j" "j < N" for j
      using that rJ r by (cases "j = J") simp_all
    then show ?thesis
      using run0 u0
      by (simp add: bn_def [symmetric] bo_def [symmetric] D_def [symmetric] S_def [symmetric]
          N_def [symmetric] J_def [symmetric])
  qed
qed

lemma NodeAppendRange_offsets_post:
  shows "Data new \<noteq> Data old \<Longrightarrow> unat srcOld + unat n \<le> unat onk
    \<Longrightarrow> unat dstNew + unat n \<le> unat nnk
    \<Longrightarrow> node_fits m new nnk \<Longrightarrow> node_fits m old onk
    \<Longrightarrow> 1 \<le> unat i \<Longrightarrow> unat i \<le> unat n + 1
    \<Longrightarrow> \<exists>m'. NodeAppendRange_offsets m new old dstNew srcOld n dstBegin srcBegin i = Inr m'
          \<and> unchanged_outside (m (Data new)) (m' (Data new))
                (4 + 8 * unat nnk + 2 * (unat dstNew + unat i - 1))
                (4 + 8 * unat nnk + 2 * (unat dstNew + unat n))
          \<and> (\<forall>j. unat i \<le> j \<and> j \<le> unat n \<longrightarrow>
                Uint16 (m' (Data new)) (4 + 8 * unat nnk + 2 * (unat dstNew + j - 1))
                = thn (Uint16 (m (Data old)) (4 + 8 * unat onk + 2 * (unat srcOld + j - 1)))
                    (\<lambda>off. Inr (dstBegin + off - srcBegin)))"
proof (induction m new old dstNew srcOld n dstBegin srcBegin i
    rule: NodeAppendRange_offsets.induct)
  case (1 m new old dstNew srcOld n dstBegin srcBegin i)
  note distinct = "1.prems"(1) and src = "1.prems"(2) and dst = "1.prems"(3)
    and fn = "1.prems"(4) and fo = "1.prems"(5) and i1 = "1.prems"(6) and iN = "1.prems"(7)
  define bn where "bn = m (Data new)"
  define bo where "bo = m (Data old)"
  define S D N J where "S = unat srcOld" and "D = unat dstNew" and "N = unat n" and "J = unat i"
  define Kn Ko where "Kn = unat nnk" and "Ko = unat onk"
  have SN: "S + N \<le> Ko" and DN: "D + N \<le> Kn" and J1: "1 \<le> J" and JN1: "J \<le> N + 1"
    using src dst i1 iN by (simp_all add: S_def D_def N_def J_def Kn_def Ko_def)
  have Lo: "4 + 10 * Ko \<le> length bo" "length bo \<le> 65535"
    and Ln: "4 + 10 * Kn \<le> length bn" "length bn \<le> 65535"
    using fn fo by (simp_all add: node_fits_def bn_def bo_def Kn_def Ko_def)
  show ?case
  proof (cases "i \<le> n")
    case False
    then have "J = N + 1" using JN1 by (simp add: J_def N_def word_le_nat_alt)
    then show ?thesis
      using False
      by (auto simp: NodeAppendRange_offsets.simps [of m] J_def N_def)
  next
    case True
    then have JN: "J \<le> N" by (simp add: J_def N_def word_le_nat_alt)
    have inc: "unat (i + 1) = J + 1"
      using unat_add16 [of i 1] JN DN Ln by (simp add: J_def)
    have usi: "unat (srcOld + i) = S + J"
      using unat_add16 [of srcOld i] SN JN Lo by (simp add: S_def J_def)
    have udi: "unat (dstNew + i) = D + J"
      using unat_add16 [of dstNew i] DN JN Ln by (simp add: D_def J_def)
    have si: "srcOld + i \<noteq> 0" "srcOld + i \<le> onk"
      using usi SN JN J1 by (simp_all add: word_le_nat_alt Ko_def flip: unat_eq_0)
    have di: "dstNew + i \<noteq> 0" "dstNew + i \<le> nnk"
      using udi DN JN J1 by (simp_all add: word_le_nat_alt Kn_def flip: unat_eq_0)
    have rng_o: "4 + 8 * Ko + 2 * (S + J - 1) + 2 \<le> length bo"
      using SN JN J1 Lo by arith
    have rng_n: "4 + 8 * Kn + 2 * (D + J - 1) + 2 \<le> length bn"
      using DN JN J1 Ln by arith
    obtain off where o: "Uint16 bo (4 + 8 * Ko + 2 * (S + J - 1)) = Inr off"
      using Uint16_in_range [OF rng_o] by blast
    have go: "GetOffset m old (srcOld + i) = Inr off"
      using GetOffset_fits [OF fo si] o by (simp add: usi bo_def Ko_def)
    define v where "v = dstBegin + off - srcBegin"
    obtain b1 where p1: "PutUint16 bn (4 + 8 * Kn + 2 * (D + J - 1)) v = Inr b1"
      and u1: "unchanged_outside bn b1 (4 + 8 * Kn + 2 * (D + J - 1))
                 (4 + 8 * Kn + 2 * (D + J - 1) + 2)"
      and r1: "Uint16 b1 (4 + 8 * Kn + 2 * (D + J - 1)) = Inr v"
      using PutUint16_result [OF rng_n, of v] by blast
    define m1 where "m1 = m(Data new := b1)"
    have so: "SetOffset m new (dstNew + i) (dstBegin + off - srcBegin) = Inr m1"
      using SetOffset_fits [OF fn di] p1 by (simp add: udi bn_def m1_def Kn_def v_def)
    have m1n: "m1 (Data new) = b1" and m1o: "m1 (Data old) = bo"
      using distinct by (simp_all add: m1_def bo_def)
    have fn1: "node_fits m1 new nnk"
      unfolding m1_def using fn
    proof (rule node_fits_update)
      show "agree_on (m (Data new)) b1 2 4"
        using u1 [unfolded bn_def] by (rule unchanged_agree) simp
    qed
    have fo1: "node_fits m1 old onk"
      using fo node_fits_cong [of m1 old m onk] m1o by (simp add: bo_def)
    have i1': "1 \<le> unat (i + 1)" "unat (i + 1) \<le> unat n + 1"
      using inc JN by (simp_all add: N_def)
    obtain m' where
      run: "NodeAppendRange_offsets m1 new old dstNew srcOld n dstBegin srcBegin (i + 1) = Inr m'"
      and u: "unchanged_outside b1 (m' (Data new)) (4 + 8 * Kn + 2 * (D + (J + 1) - 1))
                (4 + 8 * Kn + 2 * (D + N))"
      and r: "\<forall>j. J + 1 \<le> j \<and> j \<le> N \<longrightarrow>
                Uint16 (m' (Data new)) (4 + 8 * Kn + 2 * (D + j - 1))
                = thn (Uint16 bo (4 + 8 * Ko + 2 * (S + j - 1)))
                    (\<lambda>off. Inr (dstBegin + off - srcBegin))"
      using "1.IH" [OF True go so distinct src dst fn1 fo1 i1']
      by (auto simp: m1n m1o inc D_def [symmetric] S_def [symmetric] N_def [symmetric]
          Kn_def [symmetric] Ko_def [symmetric])
    have run0: "NodeAppendRange_offsets m new old dstNew srcOld n dstBegin srcBegin i = Inr m'"
      using True go so run by (simp add: NodeAppendRange_offsets.simps [of m])
    have u0: "unchanged_outside bn (m' (Data new)) (4 + 8 * Kn + 2 * (D + J - 1))
        (4 + 8 * Kn + 2 * (D + N))"
      using u1 u by (rule unchanged_outside_trans) (use JN J1 in arith)+
    have "agree_on b1 (m' (Data new)) (4 + 8 * Kn + 2 * (D + J - 1))
        (4 + 8 * Kn + 2 * (D + J - 1) + 2)"
      using u by (rule unchanged_agree) (use J1 in arith)
    then have rJ: "Uint16 (m' (Data new)) (4 + 8 * Kn + 2 * (D + J - 1))
        = thn (Uint16 bo (4 + 8 * Ko + 2 * (S + J - 1))) (\<lambda>off. Inr (dstBegin + off - srcBegin))"
      using r1 o by (simp add: Uint16_agree v_def)
    have "Uint16 (m' (Data new)) (4 + 8 * Kn + 2 * (D + j - 1))
        = thn (Uint16 bo (4 + 8 * Ko + 2 * (S + j - 1))) (\<lambda>off. Inr (dstBegin + off - srcBegin))"
      if "J \<le> j" "j \<le> N" for j
      using that rJ r by (cases "j = J") simp_all
    then show ?thesis
      using run0 u0
      by (simp add: bn_def [symmetric] bo_def [symmetric] D_def [symmetric] S_def [symmetric]
          N_def [symmetric] J_def [symmetric] Kn_def [symmetric] Ko_def [symmetric])
  qed
qed

lemma NodeAppendRange_nonempty:
  assumes onk: "NKeys m old = Inr onk" and nnk: "NKeys m new = Inr nnk"
    and src: "unat srcOld + unat n \<le> unat onk"
    and dst: "unat dstNew + unat n \<le> unat nnk"
    and distinct: "Data new \<noteq> Data old"
    and lo: "length (m (Data old)) \<le> 65535"
    and ln: "length (m (Data new)) \<le> 65535"
    and sb: "GetOffset m old srcOld = Inr srcBegin"
    and se: "GetOffset m old (srcOld + n) = Inr srcEnd"
    and db: "GetOffset m new dstNew = Inr dstBegin"
    and mono: "unat srcBegin \<le> unat srcEnd"
    and oend: "4 + 10 * unat onk + unat srcEnd \<le> length (m (Data old))"
    and pin: "4 + 10 * unat nnk + unat dstBegin \<le> length (m (Data new))"
    and n0: "n \<noteq> 0"
  shows "\<exists>m' bytes k. NodeAppendRange m new old dstNew srcOld n = Inr m'
     \<and> NKeys m' new = Inr nnk
     \<and> GetOffset m' new dstNew = Inr dstBegin
     \<and> (\<forall>i < unat n. \<exists>p. GetPtr m old (srcOld + of_nat i) = Inr p
            \<and> GetPtr m' new (dstNew + of_nat i) = Inr p)
     \<and> (\<forall>i. 1 \<le> i \<and> i \<le> unat n \<longrightarrow>
           (\<exists>off. GetOffset m old (srcOld + of_nat i) = Inr off
              \<and> GetOffset m' new (dstNew + of_nat i) = Inr (dstBegin + (off - srcBegin))))
     \<and> slice_range (m (Data old)) (unat (HEADER + 10 * onk + srcBegin))
           (unat (HEADER + 10 * onk + srcEnd)) = Inr bytes
     \<and> length bytes = unat srcEnd - unat srcBegin
     \<and> k = min (length (m (Data new)) - unat (HEADER + 10 * nnk + dstBegin)) (length bytes)
     \<and> slice_len (m' (Data new)) (unat (HEADER + 10 * nnk + dstBegin)) k
           = Inr (take k bytes)"
proof -
  define bn bo where "bn = m (Data new)" and "bo = m (Data old)"
  define S D N where "S = unat srcOld" and "D = unat dstNew" and "N = unat n"
  define Kn Ko where "Kn = unat nnk" and "Ko = unat onk"
  have SN: "S + N \<le> Ko" and DN: "D + N \<le> Kn"
    using src dst by (simp_all add: S_def D_def N_def Kn_def Ko_def)
  have Lo: "4 + 10 * Ko \<le> length bo" "length bo \<le> 65535"
    and Ln: "4 + 10 * Kn \<le> length bn" "length bn \<le> 65535"
    using lo ln oend pin by (simp_all add: bn_def bo_def Kn_def Ko_def)
  have fn: "node_fits m new nnk" and fo: "node_fits m old onk"
    using onk nnk Lo Ln by (simp_all add: node_fits_def bn_def bo_def Kn_def Ko_def)
  have usn: "unat (srcOld + n) = S + N"
    using unat_add16 [of srcOld n] SN Lo by (simp add: S_def N_def)
  have udn: "unat (dstNew + n) = D + N"
    using unat_add16 [of dstNew n] DN Ln by (simp add: D_def N_def)
  have N1: "1 \<le> N" using n0 by (simp add: N_def Suc_le_eq unat_gt_0)
  have a1: "srcOld + n \<le> onk" using usn SN by (simp add: word_le_nat_alt Ko_def)
  have a2: "dstNew + n \<le> nnk" using udn DN by (simp add: word_le_nat_alt Kn_def)
  have s_le: "srcOld \<le> onk" using SN by (simp add: word_le_nat_alt Ko_def S_def)
  have d_le: "dstNew \<le> nnk" using DN by (simp add: word_le_nat_alt Kn_def D_def)
  \<comment> \<open>the pointers\<close>
  obtain m1 where run1: "NodeAppendRange_ptrs m new old dstNew srcOld n 0 = Inr m1"
    and u1: "unchanged_outside bn (m1 (Data new)) (4 + 8 * D) (4 + 8 * (D + N))"
    and r1: "\<forall>j. j < N \<longrightarrow>
               Uint64 (m1 (Data new)) (4 + 8 * (D + j)) = Uint64 bo (4 + 8 * (S + j))"
    using NodeAppendRange_ptrs_post [OF distinct src dst fn fo, of 0]
    by (auto simp: bn_def bo_def S_def D_def N_def)
  have m1o: "m1 (Data old) = bo"
    using NodeAppendRange_ptrs_frame [OF run1, of "Data old"] distinct by (simp add: bo_def)
  have h01: "agree_on bn (m1 (Data new)) 2 4"
    using u1 by (rule unchanged_agree) simp
  have fn1: "node_fits m1 new nnk"
    using fn h01 [unfolded bn_def] by (rule node_fits_agree)
  have fo1: "node_fits m1 old onk"
    using fo node_fits_cong [of m1 old m onk] m1o by (simp add: bo_def)
  have db1: "GetOffset m1 new dstNew = Inr dstBegin"
  proof -
    have "GetOffset m1 new dstNew = GetOffset m new dstNew"
      using fn d_le h01 [unfolded bn_def]
    proof (rule GetOffset_agree)
      show "agree_on (m (Data new)) (m1 (Data new))
          (4 + 8 * unat nnk + 2 * (unat dstNew - 1)) (4 + 8 * unat nnk + 2 * (unat dstNew - 1) + 2)"
        using u1 [unfolded bn_def] by (rule unchanged_agree) (use DN in \<open>simp add: Kn_def D_def\<close>)
    qed
    then show ?thesis using db by simp
  qed
  have sb1: "GetOffset m1 old srcOld = Inr srcBegin"
    using sb GetOffset_cong [of m1 old m] m1o by (simp add: bo_def)
  \<comment> \<open>the offsets\<close>
  obtain m2 where
    run2: "NodeAppendRange_offsets m1 new old dstNew srcOld n dstBegin srcBegin 1 = Inr m2"
    and u2: "unchanged_outside (m1 (Data new)) (m2 (Data new))
               (4 + 8 * Kn + 2 * D) (4 + 8 * Kn + 2 * (D + N))"
    and r2: "\<forall>j. 1 \<le> j \<and> j \<le> N \<longrightarrow>
               Uint16 (m2 (Data new)) (4 + 8 * Kn + 2 * (D + j - 1))
               = thn (Uint16 bo (4 + 8 * Ko + 2 * (S + j - 1)))
                   (\<lambda>off. Inr (dstBegin + off - srcBegin))"
    using NodeAppendRange_offsets_post [OF distinct src dst fn1 fo1, of 1 dstBegin srcBegin]
    by (auto simp: m1o S_def D_def N_def Kn_def Ko_def)
  have m2o: "m2 (Data old) = bo"
    using NodeAppendRange_offsets_frame [OF run2, of "Data old"] distinct m1o by simp
  have len1: "length (m1 (Data new)) = length bn"
    using u1 by (rule unchanged_outside_length)
  have len2: "length (m2 (Data new)) = length bn"
    using unchanged_outside_length [OF u2] len1 by simp
  have h12: "agree_on (m1 (Data new)) (m2 (Data new)) 2 4"
    using u2 by (rule unchanged_agree) simp
  have fn2: "node_fits m2 new nnk"
    using fn1 h12 by (rule node_fits_agree)
  have db2: "GetOffset m2 new dstNew = Inr dstBegin"
  proof -
    have "GetOffset m2 new dstNew = GetOffset m1 new dstNew"
      using fn1 d_le h12
    proof (rule GetOffset_agree)
      show "agree_on (m1 (Data new)) (m2 (Data new))
          (4 + 8 * unat nnk + 2 * (unat dstNew - 1)) (4 + 8 * unat nnk + 2 * (unat dstNew - 1) + 2)"
        if "dstNew \<noteq> 0"
      proof -
        have "0 < D" using that by (simp add: D_def unat_gt_0)
        then show ?thesis
          using u2 [unfolded Kn_def D_def] by (intro unchanged_agree) (auto simp: D_def)
      qed
    qed
    then show ?thesis using db1 by simp
  qed
  \<comment> \<open>the records\<close>
  define B E P where "B = 4 + 10 * Ko + unat srcBegin" and "E = 4 + 10 * Ko + unat srcEnd"
    and "P = 4 + 10 * Kn + unat dstBegin"
  have BE: "B \<le> E" "E \<le> length bo" and PL: "P \<le> length bn"
    using mono oend pin by (simp_all add: B_def E_def P_def Ko_def Kn_def bo_def bn_def)
  have uB: "unat (HEADER + 10 * onk + srcBegin) = B"
    using unat_kv_pos10 [of onk srcBegin] BE Lo by (simp add: B_def Ko_def)
  have uE: "unat (HEADER + 10 * onk + srcEnd) = E"
    using unat_kv_pos10 [of onk srcEnd] BE Lo by (simp add: E_def Ko_def)
  have uP: "unat (HEADER + 10 * nnk + dstBegin) = P"
    using unat_kv_pos10 [of nnk dstBegin] PL Ln by (simp add: P_def Kn_def)
  have kvb: "KVPos m2 old srcOld = Inr (HEADER + 10 * onk + srcBegin)"
    using KVPos_cong [of m2 old m srcOld] KVPos_fits [OF fo s_le] sb m2o by (simp add: bo_def)
  have kve: "KVPos m2 old (srcOld + n) = Inr (HEADER + 10 * onk + srcEnd)"
    using KVPos_cong [of m2 old m "srcOld + n"] KVPos_fits [OF fo a1] se m2o by (simp add: bo_def)
  have kvn: "KVPos m2 new dstNew = Inr (HEADER + 10 * nnk + dstBegin)"
    using KVPos_fits [OF fn2 d_le] db2 by simp
  define bytes where "bytes = take (E - B) (drop B bo)"
  have lb: "length bytes = E - B" using BE by (simp add: bytes_def)
  have sl: "slice_range bo B E = Inr bytes"
    using BE by (simp add: slice_range_def bytes_def)
  define k where "k = min (length bn - P) (length bytes)"
  obtain b3 where p3: "copy_at (m2 (Data new)) P bytes = Inr b3"
    and u3: "unchanged_outside (m2 (Data new)) b3 P (P + k)"
    and r3: "slice_len b3 P k = Inr (take k bytes)"
    using copy_at_result_room [of P "m2 (Data new)" bytes] PL len2 by (auto simp: k_def)
  define m' where "m' = m2(Data new := b3)"
  have run: "NodeAppendRange m new old dstNew srcOld n = Inr m'"
    using onk nnk a1 a2 n0 run1 db1 sb1 run2 kvb kve kvn sl p3
    by (simp add: NodeAppendRange_def uB uE uP m2o m'_def)
  \<comment> \<open>reading the new node back\<close>
  have m'b: "m' (Data new) = b3" by (simp add: m'_def)
  have PK: "4 + 10 * Kn \<le> P" by (simp add: P_def)
  have h23: "agree_on (m2 (Data new)) b3 2 4"
    using u3 by (rule unchanged_agree) (use PK in simp)
  have h23': "agree_on (m2 (Data new)) (m' (Data new)) 2 4"
    using h23 by (simp add: m'b)
  have fits': "node_fits m' new nnk"
    using fn2 h23' by (rule node_fits_agree)
  have nk': "NKeys m' new = Inr nnk"
    using fits' by (rule node_fits_NKeys)
  have db': "GetOffset m' new dstNew = Inr dstBegin"
  proof -
    have "GetOffset m' new dstNew = GetOffset m2 new dstNew"
      using fn2 d_le h23'
    proof (rule GetOffset_agree)
      show "agree_on (m2 (Data new)) (m' (Data new))
          (4 + 8 * unat nnk + 2 * (unat dstNew - 1)) (4 + 8 * unat nnk + 2 * (unat dstNew - 1) + 2)"
        unfolding m'b using u3
        by (rule unchanged_agree) (use PK DN N1 in \<open>simp add: Kn_def D_def\<close>, arith)
    qed
    then show ?thesis using db2 by simp
  qed
  have ptrs: "\<exists>p. GetPtr m old (srcOld + of_nat i) = Inr p
      \<and> GetPtr m' new (dstNew + of_nat i) = Inr p" if "i < unat n" for i
  proof -
    have iN: "i < N" using that by (simp add: N_def)
    have usi: "unat (srcOld + of_nat i) = S + i"
      using unat_add_nat16 [of srcOld i] SN iN Lo by (simp add: S_def)
    have udi: "unat (dstNew + of_nat i) = D + i"
      using unat_add_nat16 [of dstNew i] DN iN Ln by (simp add: D_def)
    have si: "srcOld + of_nat i < onk" using usi SN iN by (simp add: word_less_nat_alt Ko_def)
    have di: "dstNew + of_nat i < nnk" using udi DN iN by (simp add: word_less_nat_alt Kn_def)
    obtain p where p: "Uint64 bo (4 + 8 * (S + i)) = Inr p"
      using Uint64_in_range [of "4 + 8 * (S + i)" bo] SN iN Lo by auto
    have "agree_on (m1 (Data new)) b3 (4 + 8 * (D + i)) (4 + 8 * (D + i) + 8)"
      using u2 u3 by (rule agree_chain2) (use DN iN PK in simp_all)
    then have "Uint64 b3 (4 + 8 * (D + i)) = Inr p"
      using r1 iN p by (simp add: Uint64_agree)
    then show ?thesis
      using GetPtr_fits [OF fo si] GetPtr_fits [OF fits' di] p
      by (simp add: usi udi m'b bo_def)
  qed
  have offs: "\<exists>off. GetOffset m old (srcOld + of_nat i) = Inr off
      \<and> GetOffset m' new (dstNew + of_nat i) = Inr (dstBegin + (off - srcBegin))"
    if "1 \<le> i \<and> i \<le> unat n" for i
  proof -
    have i1: "1 \<le> i" and iN: "i \<le> N" using that by (simp_all add: N_def)
    have usi: "unat (srcOld + of_nat i) = S + i"
      using unat_add_nat16 [of srcOld i] SN iN Lo by (simp add: S_def)
    have udi: "unat (dstNew + of_nat i) = D + i"
      using unat_add_nat16 [of dstNew i] DN iN Ln by (simp add: D_def)
    have si: "srcOld + of_nat i \<noteq> 0" "srcOld + of_nat i \<le> onk"
      using usi SN iN i1 by (simp_all add: word_le_nat_alt Ko_def flip: unat_eq_0)
    have di: "dstNew + of_nat i \<noteq> 0" "dstNew + of_nat i \<le> nnk"
      using udi DN iN i1 by (simp_all add: word_le_nat_alt Kn_def flip: unat_eq_0)
    have rng_o: "4 + 8 * Ko + 2 * (S + i - 1) + 2 \<le> length bo"
      using SN iN i1 Lo by arith
    obtain off where o: "Uint16 bo (4 + 8 * Ko + 2 * (S + i - 1)) = Inr off"
      using Uint16_in_range [OF rng_o] by blast
    have "agree_on (m2 (Data new)) b3 (4 + 8 * Kn + 2 * (D + i - 1))
        (4 + 8 * Kn + 2 * (D + i - 1) + 2)"
      using u3 by (rule unchanged_agree) (use DN iN i1 PK in arith)
    then have "Uint16 b3 (4 + 8 * Kn + 2 * (D + i - 1)) = Inr (dstBegin + off - srcBegin)"
      using r2 i1 iN o by (simp add: Uint16_agree)
    then show ?thesis
      using GetOffset_fits [OF fo si] GetOffset_fits [OF fits' di] o
      by (simp add: usi udi m'b bo_def Kn_def Ko_def)
  qed
  show ?thesis
    using run nk' db' ptrs offs sl lb r3 k_def
    by (simp add: uB uE uP m'b bo_def [symmetric] bn_def [symmetric] B_def E_def)
qed

text \<open>
  C6, as stated, fails on full pages. The old page \<open>page_full\<close> is a well-formed leaf
  whose two records of 2036 bytes fill it to the last byte; the new page has key count 3,
  so its records start 10 bytes later. Both preconditions hold (\<open>0 + 2 \<le> 2\<close> and
  \<open>0 + 2 \<le> 3\<close>), and \<^verbatim>\<open>NodeAppendRange(new, old, 0, 0, 2)\<close> returns with the offsets
  2036 and 4072 written, but \<^verbatim>\<open>copy\<close> stops at the end of the page: the last 10 bytes of
  the second record are missing, and its value, readable in the old node, cannot be read
  in the new one.
\<close>

theorem NodeAppendRange_truncates:
  "NKeys mem_full \<lparr>Data = 1\<rparr> = Inr 2 \<and> NKeys mem_full \<lparr>Data = 0\<rparr> = Inr 3
   \<and> length (mem_full 1) = BTREE_PAGE_SIZE \<and> length (mem_full 0) = BTREE_PAGE_SIZE
   \<and> NodeAppendRange mem_full \<lparr>Data = 0\<rparr> \<lparr>Data = 1\<rparr> 0 0 2 = Inr (mem_full(0 := page_cut))
   \<and> GetOffset (mem_full(0 := page_cut)) \<lparr>Data = 0\<rparr> 2 = Inr 4072
   \<and> KVPos (mem_full(0 := page_cut)) \<lparr>Data = 0\<rparr> 0 = Inr 34
   \<and> slice_len page_cut 34 4072 = Inl OutOfRange
   \<and> GetVal mem_full \<lparr>Data = 1\<rparr> 1 = Inr (replicate 2031 50)
   \<and> GetVal (mem_full(0 := page_cut)) \<lparr>Data = 0\<rparr> 1 = Inl OutOfRange"
proof -
  have e: "(2036 :: byte) = 244" "(4072 :: byte) = 232" by simp_all
  have run: "NodeAppendRange mem_full \<lparr>Data = 0\<rparr> \<lparr>Data = 1\<rparr> 0 0 2
      = Inr (mem_full(0 := page_cut))"
    by (simp add: builder_defs codec_defs mem_full_def page_full_def page_count3_def page_cut_def
        NodeAppendRange_ptrs.simps NodeAppendRange_offsets.simps GetPtr_def Uint64_def
        nth_append e)
  have old: "NKeys mem_full \<lparr>Data = 1\<rparr> = Inr 2"
    "GetVal mem_full \<lparr>Data = 1\<rparr> 1 = Inr (replicate 2031 50)"
    by (simp_all add: codec_defs mem_full_def page_full_def nth_append)
  have new: "NKeys mem_full \<lparr>Data = 0\<rparr> = Inr 3"
    by (simp add: codec_defs mem_full_def page_count3_def)
  have len: "length (mem_full 1) = BTREE_PAGE_SIZE" "length (mem_full 0) = BTREE_PAGE_SIZE"
    by (simp_all add: mem_full_def page_full_def page_count3_def BTREE_PAGE_SIZE_def)
  have cut: "GetOffset (mem_full(0 := page_cut)) \<lparr>Data = 0\<rparr> 2 = Inr 4072"
    "KVPos (mem_full(0 := page_cut)) \<lparr>Data = 0\<rparr> 0 = Inr 34"
    "slice_len page_cut 34 4072 = Inl OutOfRange"
    "GetVal (mem_full(0 := page_cut)) \<lparr>Data = 0\<rparr> 1 = Inl OutOfRange"
    by (simp_all add: codec_defs page_cut_def nth_append)
  show ?thesis
    using run old new len cut by simp
qed

text \<open>
  C6, amended. Under the two preconditions \<open>srcOld + n \<le> old.NKeys()\<close> and
  \<open>dstNew + n \<le> new.NKeys()\<close>: with \<open>n = 0\<close> the call returns the memory as it was.
  With \<open>n > 0\<close>, let old and new be different buffers of at most 65535 bytes, the old
  records between the offsets \<open>srcBegin \<le> srcEnd\<close> of \<open>srcOld\<close> and \<open>srcOld + n\<close> lie
  inside the old buffer, and \<^verbatim>\<open>KVPos(dstNew)\<close>, with \<open>dstBegin\<close> the offset of \<open>dstNew\<close>,
  lie inside the new one. Then the call returns and in the new node: pointer
  \<open>dstNew + i\<close> is the old pointer \<open>srcOld + i\<close> for \<open>i < n\<close>; offset \<open>dstNew + i\<close> is
  \<open>dstBegin + (old offset (srcOld + i) - srcBegin)\<close> for \<open>1 \<le> i \<le> n\<close>, the offset at
  \<open>dstNew\<close> being still \<open>dstBegin\<close>; and from \<^verbatim>\<open>KVPos(dstNew)\<close> on stand the first \<open>k\<close>
  of the old bytes between \<^verbatim>\<open>KVPos(srcOld)\<close> and \<^verbatim>\<open>KVPos(srcOld + n)\<close>, \<open>k\<close> being
  what the new buffer has room for: all of them exactly when the records fit.
\<close>

theorem NodeAppendRange_post:
  assumes onk: "NKeys m old = Inr onk" and nnk: "NKeys m new = Inr nnk"
    and src: "unat srcOld + unat n \<le> unat onk"
    and dst: "unat dstNew + unat n \<le> unat nnk"
  shows "(n = 0 \<longrightarrow> NodeAppendRange m new old dstNew srcOld n = Inr m)
     \<and> (n \<noteq> 0 \<and> Data new \<noteq> Data old
        \<and> length (m (Data old)) \<le> 65535 \<and> length (m (Data new)) \<le> 65535
        \<and> GetOffset m old srcOld = Inr srcBegin
        \<and> GetOffset m old (srcOld + n) = Inr srcEnd
        \<and> GetOffset m new dstNew = Inr dstBegin
        \<and> unat srcBegin \<le> unat srcEnd
        \<and> 4 + 10 * unat onk + unat srcEnd \<le> length (m (Data old))
        \<and> 4 + 10 * unat nnk + unat dstBegin \<le> length (m (Data new))
       \<longrightarrow> (\<exists>m' bytes k. NodeAppendRange m new old dstNew srcOld n = Inr m'
           \<and> NKeys m' new = Inr nnk
           \<and> GetOffset m' new dstNew = Inr dstBegin
           \<and> (\<forall>i < unat n. \<exists>p. GetPtr m old (srcOld + of_nat i) = Inr p
                  \<and> GetPtr m' new (dstNew + of_nat i) = Inr p)
           \<and> (\<forall>i. 1 \<le> i \<and> i \<le> unat n \<longrightarrow>
                 (\<exists>off. GetOffset m old (srcOld + of_nat i) = Inr off
                    \<and> GetOffset m' new (dstNew + of_nat i)
                        = Inr (dstBegin + (off - srcBegin))))
           \<and> slice_range (m (Data old)) (unat (HEADER + 10 * onk + srcBegin))
                 (unat (HEADER + 10 * onk + srcEnd)) = Inr bytes
           \<and> length bytes = unat srcEnd - unat srcBegin
           \<and> k = min (length (m (Data new)) - unat (HEADER + 10 * nnk + dstBegin))
                   (length bytes)
           \<and> slice_len (m' (Data new)) (unat (HEADER + 10 * nnk + dstBegin)) k
                 = Inr (take k bytes)
           \<and> (length bytes \<le> length (m (Data new)) - unat (HEADER + 10 * nnk + dstBegin)
                \<longrightarrow> slice_len (m' (Data new)) (unat (HEADER + 10 * nnk + dstBegin))
                      (length bytes) = Inr bytes)))"
proof (intro conjI impI)
  assume "n = 0"
  then show "NodeAppendRange m new old dstNew srcOld n = Inr m"
    using onk nnk src dst by (simp add: NodeAppendRange_def word_le_nat_alt)
next
  assume h: "n \<noteq> 0 \<and> Data new \<noteq> Data old
        \<and> length (m (Data old)) \<le> 65535 \<and> length (m (Data new)) \<le> 65535
        \<and> GetOffset m old srcOld = Inr srcBegin
        \<and> GetOffset m old (srcOld + n) = Inr srcEnd
        \<and> GetOffset m new dstNew = Inr dstBegin
        \<and> unat srcBegin \<le> unat srcEnd
        \<and> 4 + 10 * unat onk + unat srcEnd \<le> length (m (Data old))
        \<and> 4 + 10 * unat nnk + unat dstBegin \<le> length (m (Data new))"
  let ?P = "unat (HEADER + 10 * nnk + dstBegin)"
  obtain m' bytes k where run: "NodeAppendRange m new old dstNew srcOld n = Inr m'"
    and nk': "NKeys m' new = Inr nnk"
    and db': "GetOffset m' new dstNew = Inr dstBegin"
    and ptrs: "\<forall>i < unat n. \<exists>p. GetPtr m old (srcOld + of_nat i) = Inr p
                  \<and> GetPtr m' new (dstNew + of_nat i) = Inr p"
    and offs: "\<forall>i. 1 \<le> i \<and> i \<le> unat n \<longrightarrow>
                 (\<exists>off. GetOffset m old (srcOld + of_nat i) = Inr off
                    \<and> GetOffset m' new (dstNew + of_nat i)
                        = Inr (dstBegin + (off - srcBegin)))"
    and sl: "slice_range (m (Data old)) (unat (HEADER + 10 * onk + srcBegin))
                 (unat (HEADER + 10 * onk + srcEnd)) = Inr bytes"
    and lb: "length bytes = unat srcEnd - unat srcBegin"
    and k: "k = min (length (m (Data new)) - ?P) (length bytes)"
    and cp: "slice_len (m' (Data new)) ?P k = Inr (take k bytes)"
    using NodeAppendRange_nonempty [OF onk nnk src dst, of srcBegin srcEnd dstBegin] h
    by blast
  have all: "slice_len (m' (Data new)) ?P (length bytes) = Inr bytes"
    if "length bytes \<le> length (m (Data new)) - ?P"
  proof -
    have "k = length bytes" using k that by simp
    then show ?thesis using cp by simp
  qed
  show "\<exists>m' bytes k. NodeAppendRange m new old dstNew srcOld n = Inr m'
           \<and> NKeys m' new = Inr nnk
           \<and> GetOffset m' new dstNew = Inr dstBegin
           \<and> (\<forall>i < unat n. \<exists>p. GetPtr m old (srcOld + of_nat i) = Inr p
                  \<and> GetPtr m' new (dstNew + of_nat i) = Inr p)
           \<and> (\<forall>i. 1 \<le> i \<and> i \<le> unat n \<longrightarrow>
                 (\<exists>off. GetOffset m old (srcOld + of_nat i) = Inr off
                    \<and> GetOffset m' new (dstNew + of_nat i)
                        = Inr (dstBegin + (off - srcBegin))))
           \<and> slice_range (m (Data old)) (unat (HEADER + 10 * onk + srcBegin))
                 (unat (HEADER + 10 * onk + srcEnd)) = Inr bytes
           \<and> length bytes = unat srcEnd - unat srcBegin
           \<and> k = min (length (m (Data new)) - unat (HEADER + 10 * nnk + dstBegin))
                   (length bytes)
           \<and> slice_len (m' (Data new)) (unat (HEADER + 10 * nnk + dstBegin)) k
                 = Inr (take k bytes)
           \<and> (length bytes \<le> length (m (Data new)) - unat (HEADER + 10 * nnk + dstBegin)
                \<longrightarrow> slice_len (m' (Data new)) (unat (HEADER + 10 * nnk + dstBegin))
                      (length bytes) = Inr bytes)"
    using run nk' db' ptrs offs sl lb k cp all by blast
qed

theorem NodeAppendRange_post_witness:
  "NKeys mem_copy \<lparr>Data = 1\<rparr> = Inr 2 \<and> NKeys mem_copy \<lparr>Data = 0\<rparr> = Inr 2
   \<and> GetOffset mem_copy \<lparr>Data = 1\<rparr> 0 = Inr 0 \<and> GetOffset mem_copy \<lparr>Data = 1\<rparr> 2 = Inr 12
   \<and> GetOffset mem_copy \<lparr>Data = 0\<rparr> 0 = Inr 0
   \<and> length (mem_copy 1) = 4096 \<and> length (mem_copy 0) = 40
   \<and> NodeAppendRange mem_copy \<lparr>Data = 0\<rparr> \<lparr>Data = 1\<rparr> 0 0 0 = Inr mem_copy
   \<and> thn (NodeAppendRange mem_copy \<lparr>Data = 0\<rparr> \<lparr>Data = 1\<rparr> 0 0 2)
         (\<lambda>m'. GetOffset m' \<lparr>Data = 0\<rparr> 2) = Inr 12
   \<and> thn (NodeAppendRange mem_copy \<lparr>Data = 0\<rparr> \<lparr>Data = 1\<rparr> 0 0 2)
         (\<lambda>m'. slice_len (m' 0) 24 12) = Inr [1, 0, 1, 0, 97, 49, 1, 0, 1, 0, 98, 50]"
proof -
  let ?new = "\<lparr>Data = 0\<rparr>" and ?old = "\<lparr>Data = 1\<rparr>"
  have onk: "NKeys mem_copy ?old = Inr 2" and nnk: "NKeys mem_copy ?new = Inr 2"
    by (simp_all add: NKeys_def Uint16_def mem_copy_def leaf_ab_def page_count2_def)
  have sb: "GetOffset mem_copy ?old 0 = Inr 0" and db: "GetOffset mem_copy ?new 0 = Inr 0"
    by (simp_all add: GetOffset_def)
  have se: "GetOffset mem_copy ?old 2 = Inr 12"
    by (simp add: codec_defs mem_copy_def leaf_ab_def)
  have lens: "length (mem_copy 1) = 4096" "length (mem_copy 0) = 40"
    by (simp_all add: mem_copy_def leaf_ab_def page_count2_def)
  have b0: "unat (0 :: uint16) + unat (0 :: uint16) \<le> unat (2 :: uint16)"
    and b2: "unat (0 :: uint16) + unat (2 :: uint16) \<le> unat (2 :: uint16)"
    by simp_all
  have old_bytes: "slice_range (mem_copy 1) 24 36 = Inr [1, 0, 1, 0, 97, 49, 1, 0, 1, 0, 98, 50]"
    by (simp add: slice_range_def mem_copy_def leaf_ab_def)
  have empty: "NodeAppendRange mem_copy ?new ?old 0 0 0 = Inr mem_copy"
    using NodeAppendRange_post [OF onk nnk b0 b0] by simp
  obtain m' bytes where run: "NodeAppendRange mem_copy ?new ?old 0 0 2 = Inr m'"
    and offs: "\<forall>i. 1 \<le> i \<and> i \<le> unat (2 :: uint16) \<longrightarrow>
                 (\<exists>off. GetOffset mem_copy ?old (0 + of_nat i) = Inr off
                    \<and> GetOffset m' ?new (0 + of_nat i) = Inr (0 + (off - 0)))"
    and sl: "slice_range (mem_copy (Data ?old)) (unat (HEADER + 10 * 2 + (0 :: uint16)))
                 (unat (HEADER + 10 * 2 + (12 :: uint16))) = Inr bytes"
    and fit: "length bytes \<le> length (mem_copy (Data ?new)) - unat (HEADER + 10 * 2 + (0 :: uint16))
                \<longrightarrow> slice_len (m' (Data ?new)) (unat (HEADER + 10 * 2 + (0 :: uint16)))
                      (length bytes) = Inr bytes"
    using NodeAppendRange_post [OF onk nnk b2 b2, of 0 12 0] sb se db lens by auto
  have "\<exists>off. GetOffset mem_copy ?old (0 + of_nat 2) = Inr off
      \<and> GetOffset m' ?new (0 + of_nat 2) = Inr (0 + (off - 0))"
    using offs [rule_format, of 2] by simp
  then have o2: "GetOffset m' ?new 2 = Inr 12" using se by simp
  have bytes: "bytes = [1, 0, 1, 0, 97, 49, 1, 0, 1, 0, 98, 50]"
    using sl old_bytes by (simp add: HEADER_def)
  then have "length bytes = 12" by simp
  then have "slice_len (m' 0) 24 12 = Inr bytes"
    using fit lens by (simp add: HEADER_def)
  then have "slice_len (m' 0) 24 12 = Inr [1, 0, 1, 0, 97, 49, 1, 0, 1, 0, 98, 50]"
    unfolding bytes .
  then show ?thesis using onk nnk sb se db lens empty run o2 by simp
qed

end
